theory Spec2Isabelle
  imports Main
begin

section \<open>Data model of \<open>server.js\<close>\<close>

text \<open>
  The server keeps one process-wide table \<open>sessions\<close>, a few fields on every socket
  (\<open>socket.sessionId\<close>, \<open>socket.playerName\<close>), the socket.io rooms, and the pending
  \<open>setTimeout\<close> callbacks. Every handler runs to completion before the next event is
  processed, so a handler is a function from state to state; what it emits is appended
  to the log \<open>emitted\<close>.

  Modelling conventions:
  \<^item> JavaScript strings are \<open>string\<close>; \<open>trim\<close> strips the ASCII white space characters
    and \<open>toLowerCase\<close> folds the ASCII letters. On text with other white space (such as
    the no-break space) or other capital letters the source strips and folds more than
    these two functions do; the statements below use \<open>trim\<close> and \<open>toLowerCase\<close> only as
    the handlers' own tests, and no proof depends on which characters they affect.
  \<^item> A payload field is \<open>string option\<close>: \<open>None\<close> when the field is missing,
    \<open>undefined\<close> or \<open>null\<close>.
  \<^item> A JavaScript \<open>Map\<close> is an association list in insertion order: \<open>set\<close> on a
    key that is present replaces the value in place, \<open>set\<close> on a new key appends,
    \<open>delete\<close> removes the entry.
  \<^item> \<open>score\<close> and \<open>attemptsLeft\<close> are JavaScript numbers that only ever hold small
    integers; they are \<open>int\<close> here.
  \<^item> \<open>Math.random\<close> is an input: the handler of \<open>create_session\<close> takes the string
    that \<open>makeSessionId()\<close> returns in this call.
  \<^item> A \<open>Timeout\<close> handle is a natural number, fresh at every \<open>setTimeout\<close>; the
    table \<open>timers\<close> holds the callbacks that are still pending, each one being
    \<open>endGame(sessionId, "time_expired", null)\<close> for the recorded session id.
  \<^item> The table \<open>sessions\<close> is a plain JavaScript object, so \<open>sessions[id]\<close> also finds
    the properties inherited from \<open>Object.prototype\<close>. The two handlers that look up an
    id sent by a client, \<open>create_session\<close> and \<open>join_session\<close>, model this. The other
    handlers look up \<open>socket.sessionId\<close>, which only these two handlers store and which
    therefore is the id of a session that was created.
  \<^item> The rooms change by the calls of \<open>socket.join\<close> and \<open>socket.leave\<close> in the source.
    What socket.io itself does to the rooms of a connection that closes is not part of
    the source and is not modelled.
  \<^item> The function \<open>joinSession\<close> of the source is never called and is left out.
\<close>

type_synonym conn_id = string
type_synonym session_id = string
type_synonym timer_id = nat

record player =
  player_id :: conn_id
  name :: string
  score :: int
  attemptsLeft :: int

record session =
  sess_id :: session_id
  players :: "(conn_id \<times> player) list"
  gm :: conn_id
  question :: "string option"
  answer :: "string option"
  answerOriginal :: "string option"
  inProgress :: bool
  timer :: "timer_id option"
  winner :: "conn_id option"

record socket =
  sessionId :: "session_id option"
  playerName :: "string option"

text \<open>One entry of the \<open>players\<close> array of a \<open>session_state\<close> message:
  id, name, score, attemptsLeft, isGM.\<close>

datatype player_view = Player_view conn_id string int int bool

datatype message =
    Session_state session_id "player_view list" conn_id bool "string option" "conn_id option"
  | System_message string
  | Error_message string
  | Session_created session_id conn_id
  | Left_session session_id
  | Game_started "string option" nat
  | Game_ended string "(conn_id \<times> string option) option" "string option"

text \<open>\<open>socket.emit\<close> reaches one socket; \<open>io.to(room).emit\<close> reaches the sockets that
  are in the room at the moment of the call, which the log records.\<close>

datatype emission =
    Emit_socket conn_id message
  | Emit_room session_id "conn_id set" message

record state =
  sessions :: "session_id \<rightharpoonup> session"
  sockets :: "conn_id \<Rightarrow> socket"
  rooms :: "session_id \<Rightarrow> conn_id set"
  timers :: "timer_id \<rightharpoonup> session_id"
  next_timer :: timer_id
  emitted :: "emission list"

section \<open>JavaScript primitives\<close>

text \<open>Truthiness of a value that is a string, \<open>undefined\<close> or \<open>null\<close>.\<close>

fun truthy :: "string option \<Rightarrow> bool" where
  "truthy None = False"
| "truthy (Some s) = (s \<noteq> [])"

text \<open>\<open>(x || d)\<close> where \<open>d\<close> is a string.\<close>

fun js_or :: "string option \<Rightarrow> string \<Rightarrow> string" where
  "js_or None d = d"
| "js_or (Some s) d = (if s \<noteq> [] then s else d)"

definition is_space :: "char \<Rightarrow> bool" where
  "is_space c = (c \<in> set [CHR '' '', CHR 0x09, CHR 0x0A, CHR 0x0B, CHR 0x0C, CHR 0x0D])"

definition trim :: "string \<Rightarrow> string" where
  "trim s = rev (dropWhile is_space (rev (dropWhile is_space s)))"

definition lower_char :: "char \<Rightarrow> char" where
  "lower_char c =
     (let n = (of_char c :: nat) in if 65 \<le> n \<and> n \<le> 90 then char_of (n + 32) else c)"

definition toLowerCase :: "string \<Rightarrow> string" where
  "toLowerCase s = map lower_char s"

text \<open>Decimal rendering of a number inside a template string.\<close>

fun show_nat :: "nat \<Rightarrow> string" where
  "show_nat n =
     (if n < 10 then [char_of (48 + n)] else show_nat (n div 10) @ [char_of (48 + n mod 10)])"

definition show_int :: "int \<Rightarrow> string" where
  "show_int i = (if i < 0 then CHR ''-'' # show_nat (nat (- i)) else show_nat (nat i))"

text \<open>The names that every plain object inherits from \<open>Object.prototype\<close>; reading one
  of them from the table \<open>sessions\<close> yields a function or an object, which is truthy and
  has no \<open>players\<close>.\<close>

definition object_prototype_keys :: "string list" where
  "object_prototype_keys =
     [''constructor'', ''__defineGetter__'', ''__defineSetter__'', ''hasOwnProperty'',
      ''__lookupGetter__'', ''__lookupSetter__'', ''isPrototypeOf'', ''propertyIsEnumerable'',
      ''toString'', ''valueOf'', ''__proto__'', ''toLocaleString'']"

text \<open>\<open>Map.prototype.get\<close> is \<open>map_of\<close>; \<open>set\<close>, \<open>delete\<close> and \<open>keys\<close> follow.\<close>

fun map_set :: "'k \<Rightarrow> 'v \<Rightarrow> ('k \<times> 'v) list \<Rightarrow> ('k \<times> 'v) list" where
  "map_set k v [] = [(k, v)]"
| "map_set k v (p # ps) = (if fst p = k then (k, v) # ps else p # map_set k v ps)"

definition map_delete :: "'k \<Rightarrow> ('k \<times> 'v) list \<Rightarrow> ('k \<times> 'v) list" where
  "map_delete k ps = filter (\<lambda>p. fst p \<noteq> k) ps"

definition map_keys :: "('k \<times> 'v) list \<Rightarrow> 'k list" where
  "map_keys ps = map fst ps"

text \<open>\<open>Array.prototype.indexOf\<close>: the first position of \<open>x\<close>, or \<open>-1\<close>.\<close>

fun indexOf :: "'a list \<Rightarrow> 'a \<Rightarrow> int" where
  "indexOf [] x = - 1"
| "indexOf (y # ys) x =
     (if y = x then 0 else (let i = indexOf ys x in if i < 0 then - 1 else i + 1))"

text \<open>\<open>session.players.get(k).name\<close>. Reading \<open>name\<close> of a missing player would raise a
  \<open>TypeError\<close>; the two call sites pass the first key of a non-empty map and the
  \<open>gm\<close> that the handler has just compared with the caller, so the second branch is
  taken only in states where \<open>gm\<close> is not a player.\<close>

definition player_name :: "session \<Rightarrow> conn_id \<Rightarrow> string" where
  "player_name s k = (case map_of (players s) k of Some p \<Rightarrow> name p | None \<Rightarrow> [])"

section \<open>Emitting\<close>

definition emit_socket :: "conn_id \<Rightarrow> message \<Rightarrow> state \<Rightarrow> state" where
  "emit_socket c m st = st\<lparr>emitted := emitted st @ [Emit_socket c m]\<rparr>"

definition emit_room :: "session_id \<Rightarrow> message \<Rightarrow> state \<Rightarrow> state" where
  "emit_room r m st = st\<lparr>emitted := emitted st @ [Emit_room r (rooms st r) m]\<rparr>"

definition session_view :: "session \<Rightarrow> message" where
  "session_view s =
     Session_state (sess_id s)
       (map (\<lambda>p. Player_view (player_id (snd p)) (name (snd p)) (score (snd p))
                   (attemptsLeft (snd p)) (player_id (snd p) = gm s)) (players s))
       (gm s) (inProgress s) (if inProgress s then question s else None) (winner s)"

definition broadcastSessionState :: "session \<Rightarrow> state \<Rightarrow> state" where
  "broadcastSessionState s st = emit_room (sess_id s) (session_view s) st"

section \<open>Round end\<close>

text \<open>The blocks of \<open>endGame\<close> that change the session: the award of 10 points to the
  winner, the rotation of the Game Master, and the reset of the round's fields.\<close>

definition award_points :: "conn_id option \<Rightarrow> session \<Rightarrow> session" where
  "award_points winnerSocketId s =
     (case winnerSocketId of
        Some w \<Rightarrow>
          if w \<noteq> [] then
            (case map_of (players s) w of
               Some p \<Rightarrow> s\<lparr>players := map_set w (p\<lparr>score := score p + 10\<rparr>) (players s)\<rparr>
             | None \<Rightarrow> s)
          else s
      | None \<Rightarrow> s)"

definition rotate_gm :: "session \<Rightarrow> session" where
  "rotate_gm s =
     (let playerIds = map_keys (players s)
      in if length playerIds > 0 then
           let idx = indexOf playerIds (gm s);
               nextIdx = (if idx \<ge> 0 then (idx + 1) mod int (length playerIds) else 0)
           in s\<lparr>gm := playerIds ! nat nextIdx\<rparr>
         else s)"

definition reset_round :: "session \<Rightarrow> session" where
  "reset_round s =
     s\<lparr>question := None, answer := None, answerOriginal := None,
       players := map (\<lambda>p. (fst p, (snd p)\<lparr>attemptsLeft := 0\<rparr>)) (players s)\<rparr>"

definition endGame :: "session_id \<Rightarrow> string \<Rightarrow> conn_id option \<Rightarrow> state \<Rightarrow> state" where
  "endGame sid reason winnerSocketId st =
     (case sessions st sid of
        None \<Rightarrow> st
      | Some s \<Rightarrow>
          let st1 = (case timer s of
                       Some h \<Rightarrow> st\<lparr>timers := (timers st)(h := None)\<rparr>
                     | None \<Rightarrow> st);
              s1 = s\<lparr>timer := None, inProgress := False, winner := winnerSocketId\<rparr>;
              s2 = award_points winnerSocketId s1;
              revealedAnswer =
                (if truthy (answerOriginal s2) then answerOriginal s2
                 else if truthy (answer s2) then answer s2 else None);
              st2 = emit_room (sess_id s2)
                      (Game_ended reason
                         (case winnerSocketId of
                            Some w \<Rightarrow>
                              if w \<noteq> [] then Some (w, map_option name (map_of (players s2) w))
                              else None
                          | None \<Rightarrow> None)
                         revealedAnswer) st1;
              s3 = rotate_gm s2;
              s4 = reset_round s3
          in broadcastSessionState s4 (st2\<lparr>sessions := (sessions st2)(sid \<mapsto> s4)\<rparr>))"

section \<open>Leaving\<close>

definition leaveSessionByUser :: "session_id \<Rightarrow> conn_id \<Rightarrow> state \<Rightarrow> state" where
  "leaveSessionByUser sid c st =
     (case sessions st sid of
        None \<Rightarrow> st
      | Some s \<Rightarrow>
          let pname = js_or (map_option name (map_of (players s) c))
                        (js_or (playerName (sockets st c)) ''A player'');
              st1 = emit_room sid (System_message (pname @ '' left the session.'')) st;
              s1 = s\<lparr>players := map_delete c (players s)\<rparr>;
              st2 = st1\<lparr>sessions := (sessions st1)(sid \<mapsto> s1),
                        rooms := (rooms st1)(sid := rooms st1 sid - {c}),
                        sockets := (sockets st1)(c := \<lparr>sessionId = None, playerName = None\<rparr>)\<rparr>
          in if length (players s1) = 0 then
               (case timer s1 of
                  Some h \<Rightarrow> st2\<lparr>timers := (timers st2)(h := None)\<rparr>
                | None \<Rightarrow> st2)\<lparr>sessions := (sessions st2)(sid := None)\<rparr>
             else
               let firstId = fst (hd (players s1));
                   s2 = (if c = gm s1 then s1\<lparr>gm := firstId\<rparr> else s1);
                   st3 = (if c = gm s1 then
                            emit_room sid
                              (System_message (player_name s2 firstId @ '' is now the Game Master.''))
                              (st2\<lparr>sessions := (sessions st2)(sid \<mapsto> s2)\<rparr>)
                          else st2)
               in if inProgress s2 \<and> length (players s2) < 2 then
                    endGame sid ''stopped_not_enough_players'' None st3
                  else broadcastSessionState s2 st3)"

definition leaveSessionOnDisconnect :: "conn_id \<Rightarrow> session_id \<Rightarrow> state \<Rightarrow> state" where
  "leaveSessionOnDisconnect c sid st =
     (case sessions st sid of
        None \<Rightarrow> st
      | Some s \<Rightarrow>
          let pname = js_or (map_option name (map_of (players s) c))
                        (js_or (playerName (sockets st c)) ''A player'');
              s1 = s\<lparr>players := map_delete c (players s)\<rparr>;
              st1 = st\<lparr>sessions := (sessions st)(sid \<mapsto> s1),
                       rooms := (rooms st)(sid := rooms st sid - {c}),
                       sockets := (sockets st)(c := \<lparr>sessionId = None, playerName = None\<rparr>)\<rparr>;
              st2 = emit_room sid (System_message (pname @ '' left the session.'')) st1
          in if length (players s1) = 0 then
               (case timer s1 of
                  Some h \<Rightarrow> st2\<lparr>timers := (timers st2)(h := None)\<rparr>
                | None \<Rightarrow> st2)\<lparr>sessions := (sessions st2)(sid := None)\<rparr>
             else
               let firstId = fst (hd (players s1));
                   s2 = (if c = gm s1 then s1\<lparr>gm := firstId\<rparr> else s1);
                   st3 = (if c = gm s1 then
                            emit_room sid
                              (System_message (player_name s2 firstId @ '' is now the Game Master.''))
                              (st2\<lparr>sessions := (sessions st2)(sid \<mapsto> s2)\<rparr>)
                          else st2)
               in if inProgress s2 \<and> length (players s2) < 2 then
                    endGame sid ''stopped_not_enough_players'' None st3
                  else broadcastSessionState s2 st3)"

section \<open>Socket handlers\<close>

definition sanitizeAnswer :: "string option \<Rightarrow> string" where
  "sanitizeAnswer a = toLowerCase (trim (js_or a []))"

text \<open>\<open>create_session\<close>: \<open>rnd\<close> is what \<open>makeSessionId()\<close> returns if it is called.\<close>

definition create_session ::
  "conn_id \<Rightarrow> string option \<Rightarrow> string option \<Rightarrow> string \<Rightarrow> state \<Rightarrow> state" where
  "create_session c name_in sessionId_in rnd st =
     (let nm = take 30 (trim (js_or name_in ''Anonymous''));
          sid = (case sessionId_in of
                   Some x \<Rightarrow> if x \<noteq> [] \<and> trim x \<noteq> [] then trim x else rnd
                 | None \<Rightarrow> rnd)
      in if sessions st sid \<noteq> None \<or> sid \<in> set object_prototype_keys then
           emit_socket c
             (Error_message ''Session ID already exists. Try joining it or use another ID.'') st
         else
           let p = \<lparr>player_id = c, name = nm, score = 0, attemptsLeft = 0\<rparr>;
               s = \<lparr>sess_id = sid, players = map_set c p [], gm = c, question = None,
                    answer = None, answerOriginal = None, inProgress = False, timer = None,
                    winner = None\<rparr>;
               st1 = st\<lparr>sessions := (sessions st)(sid \<mapsto> s),
                        rooms := (rooms st)(sid := insert c (rooms st sid)),
                        sockets := (sockets st)(c := \<lparr>sessionId = Some sid, playerName = Some nm\<rparr>)\<rparr>;
               st2 = emit_socket c (Session_created sid (gm s)) st1;
               st3 = emit_room sid
                       (System_message (nm @ '' created the session and is the Game Master.'')) st2
           in broadcastSessionState s st3)"

text \<open>\<open>join_session\<close>: for an inherited name, \<open>session\<close> is truthy, \<open>session.inProgress\<close> is
  \<open>undefined\<close> and \<open>session.players.set\<close> throws a \<open>TypeError\<close>; the handler ends there,
  before it has changed or sent anything.\<close>

definition join_session :: "conn_id \<Rightarrow> string option \<Rightarrow> string option \<Rightarrow> state \<Rightarrow> state" where
  "join_session c sessionId_in name_in st =
     (let nm = take 30 (trim (js_or name_in ''Anonymous''));
          sid = trim (js_or sessionId_in [])
      in case sessions st sid of
           None \<Rightarrow>
             if sid \<in> set object_prototype_keys then st
             else emit_socket c (Error_message ''Session not found.'') st
         | Some s \<Rightarrow>
             if inProgress s then
               emit_socket c
                 (Error_message (''Cannot join '' @ [CHR 0xE2, CHR 0x80, CHR 0x94]
                                   @ '' game already in progress.'')) st
             else
               let p = \<lparr>player_id = c, name = nm, score = 0, attemptsLeft = 0\<rparr>;
                   s1 = s\<lparr>players := map_set c p (players s)\<rparr>;
                   st1 = st\<lparr>sessions := (sessions st)(sid \<mapsto> s1),
                            rooms := (rooms st)(sid := insert c (rooms st sid)),
                            sockets := (sockets st)(c := \<lparr>sessionId = Some sid, playerName = Some nm\<rparr>)\<rparr>;
                   st2 = emit_room sid (System_message (nm @ '' joined the session.'')) st1
               in broadcastSessionState s1 st2)"

definition leave_session :: "conn_id \<Rightarrow> state \<Rightarrow> state" where
  "leave_session c st =
     (if \<not> truthy (sessionId (sockets st c)) then
        emit_socket c (Error_message ''You are not currently in a session.'') st
      else
        let sid = the (sessionId (sockets st c))
        in emit_socket c (Left_session sid) (leaveSessionByUser sid c st))"

definition set_question :: "conn_id \<Rightarrow> string option \<Rightarrow> string option \<Rightarrow> state \<Rightarrow> state" where
  "set_question c question_in answer_in st =
     (if \<not> truthy (sessionId (sockets st c)) then
        emit_socket c (Error_message ''You are not in a session.'') st
      else
        let sid = the (sessionId (sockets st c))
        in case sessions st sid of
             None \<Rightarrow> st
           | Some s \<Rightarrow>
               if gm s \<noteq> c then
                 emit_socket c (Error_message ''Only the Game Master can set the question.'') st
               else if inProgress s then
                 emit_socket c
                   (Error_message ''Cannot set question while a game is in progress.'') st
               else
                 let q = take 500 (trim (js_or question_in []));
                     a = take 200 (trim (js_or answer_in []))
                 in if q = [] \<or> a = [] then
                      emit_socket c (Error_message ''Question and answer must not be empty.'') st
                    else
                      let s1 = s\<lparr>question := Some q, answerOriginal := Some a,
                                 answer := Some (sanitizeAnswer (Some a))\<rparr>;
                          st1 = st\<lparr>sessions := (sessions st)(sid \<mapsto> s1)\<rparr>;
                          st2 = emit_socket c (System_message ''Question set.'') st1
                      in broadcastSessionState s1 st2)"

definition start_game :: "conn_id \<Rightarrow> state \<Rightarrow> state" where
  "start_game c st =
     (if \<not> truthy (sessionId (sockets st c)) then
        emit_socket c (Error_message ''You are not in a session.'') st
      else
        let sid = the (sessionId (sockets st c))
        in case sessions st sid of
             None \<Rightarrow> st
           | Some s \<Rightarrow>
               if gm s \<noteq> c then
                 emit_socket c (Error_message ''Only the Game Master can start the game.'') st
               else if inProgress s then
                 emit_socket c (Error_message ''Game already in progress.'') st
               else if length (players s) < 2 then
                 emit_socket c
                   (Error_message ''You need at least 2 players to start the game.'') st
               else if \<not> truthy (question s) \<or> \<not> truthy (answer s) then
                 emit_socket c (Error_message ''Set a question and answer before starting.'') st
               else
                 let s1 = s\<lparr>players := map (\<lambda>p. (fst p, (snd p)\<lparr>attemptsLeft := 3\<rparr>)) (players s),
                            inProgress := True, winner := None\<rparr>;
                     h = next_timer st;
                     s2 = s1\<lparr>timer := Some h\<rparr>;
                     st1 = st\<lparr>sessions := (sessions st)(sid \<mapsto> s2),
                              timers := (timers st)(h \<mapsto> sid),
                              next_timer := h + 1\<rparr>;
                     st2 = emit_room sid (Game_started (question s2) 60) st1;
                     st3 = broadcastSessionState s2 st2
                 in emit_room sid
                      (System_message (''Game started by '' @ player_name s2 (gm s2)
                                         @ ''. Good luck!'')) st3)"

definition guess_narration :: "string \<Rightarrow> string \<Rightarrow> int \<Rightarrow> string" where
  "guess_narration nm guessText left =
     nm @ '' guessed: '' @ [CHR 0x22] @ guessText @ [CHR 0x22] @ '' (attempts left: ''
        @ show_int left @ '')''"

definition guess :: "conn_id \<Rightarrow> string option \<Rightarrow> state \<Rightarrow> state" where
  "guess c guessText_in st =
     (if \<not> truthy (sessionId (sockets st c)) then
        emit_socket c (Error_message ''You are not in a session.'') st
      else
        let sid = the (sessionId (sockets st c))
        in case sessions st sid of
             None \<Rightarrow> emit_socket c (Error_message ''No active game in this session.'') st
           | Some s \<Rightarrow>
               if \<not> inProgress s then
                 emit_socket c (Error_message ''No active game in this session.'') st
               else
                 (case map_of (players s) c of
                    None \<Rightarrow>
                      emit_socket c (Error_message ''You are not a player in this session.'') st
                  | Some p \<Rightarrow>
                      if attemptsLeft p \<le> 0 then
                        emit_socket c (Error_message ''No attempts left.'') st
                      else
                        let guessText = trim (js_or guessText_in [])
                        in if guessText = [] then
                             emit_socket c (Error_message ''Guess cannot be empty.'') st
                           else
                             let p1 = p\<lparr>attemptsLeft := attemptsLeft p - 1\<rparr>;
                                 s1 = s\<lparr>players := map_set c p1 (players s)\<rparr>;
                                 st1 = st\<lparr>sessions := (sessions st)(sid \<mapsto> s1)\<rparr>;
                                 st2 = emit_room sid
                                         (System_message
                                            (guess_narration (name p1) guessText (attemptsLeft p1)))
                                         st1;
                                 st3 = broadcastSessionState s1 st2;
                                 normalizedGuess = trim (toLowerCase guessText)
                             in if Some normalizedGuess = answer s1 then
                                  (if \<not> truthy (winner s1) then
                                     endGame sid ''correct_guess'' (Some c)
                                       (st3\<lparr>sessions := (sessions st3)(sid \<mapsto> s1\<lparr>winner := Some c\<rparr>)\<rparr>)
                                   else st3)
                                else if attemptsLeft p1 \<le> 0 then
                                  emit_socket c
                                    (System_message
                                       ''You have used all your attempts for this round.'') st3
                                else st3))"

definition get_session_state :: "conn_id \<Rightarrow> state \<Rightarrow> state" where
  "get_session_state c st =
     (if \<not> truthy (sessionId (sockets st c)) then st
      else
        case sessions st (the (sessionId (sockets st c))) of
          None \<Rightarrow> st
        | Some s \<Rightarrow> broadcastSessionState s st)"

definition disconnect :: "conn_id \<Rightarrow> state \<Rightarrow> state" where
  "disconnect c st =
     (if truthy (sessionId (sockets st c)) then
        leaveSessionOnDisconnect c (the (sessionId (sockets st c))) st
      else st)"

text \<open>The callback armed by \<open>start_game\<close> runs when its timeout is still pending.\<close>

definition timer_fired :: "timer_id \<Rightarrow> state \<Rightarrow> state" where
  "timer_fired h st =
     (case timers st h of
        None \<Rightarrow> st
      | Some sid \<Rightarrow> endGame sid ''time_expired'' None (st\<lparr>timers := (timers st)(h := None)\<rparr>))"

section \<open>The server as a transition system\<close>

datatype event =
    Create_session conn_id "string option" "string option" string
  | Join_session conn_id "string option" "string option"
  | Leave_session conn_id
  | Set_question conn_id "string option" "string option"
  | Start_game conn_id
  | Guess conn_id "string option"
  | Get_session_state conn_id
  | Disconnect conn_id
  | Timer_fired timer_id

fun step :: "event \<Rightarrow> state \<Rightarrow> state" where
  "step (Create_session c nm sid rnd) st = create_session c nm sid rnd st"
| "step (Join_session c sid nm) st = join_session c sid nm st"
| "step (Leave_session c) st = leave_session c st"
| "step (Set_question c q a) st = set_question c q a st"
| "step (Start_game c) st = start_game c st"
| "step (Guess c g) st = guess c g st"
| "step (Get_session_state c) st = get_session_state c st"
| "step (Disconnect c) st = disconnect c st"
| "step (Timer_fired h) st = timer_fired h st"

definition init_state :: state where
  "init_state =
     \<lparr>sessions = Map.empty, sockets = (\<lambda>c. \<lparr>sessionId = None, playerName = None\<rparr>),
      rooms = (\<lambda>r. {}), timers = Map.empty, next_timer = 0, emitted = []\<rparr>"

fun run :: "event list \<Rightarrow> state \<Rightarrow> state" where
  "run [] st = st"
| "run (e # es) st = run es (step e st)"

inductive reachable :: "state \<Rightarrow> bool" where
  reachable_init: "reachable init_state"
| reachable_step: "reachable st \<Longrightarrow> reachable (step ev st)"

section \<open>Notions used in the statements and proofs\<close>

text \<open>The session that \<open>endGame\<close> leaves behind, as a function of the session it finds.\<close>

definition end_round :: "conn_id option \<Rightarrow> session \<Rightarrow> session" where
  "end_round w s =
     reset_round (rotate_gm (award_points w (s\<lparr>timer := None, inProgress := False, winner := w\<rparr>)))"

text \<open>The session after a departure that does not empty it: the player is removed and, if
  the player was the Game Master, the first remaining player takes over.\<close>

definition drop_player :: "conn_id \<Rightarrow> session \<Rightarrow> session" where
  "drop_player c s =
     (let s1 = s\<lparr>players := map_delete c (players s)\<rparr>
      in if c = gm s1 then s1\<lparr>gm := fst (hd (players s1))\<rparr> else s1)"

definition clear_timer ::
  "timer_id option \<Rightarrow> (timer_id \<rightharpoonup> session_id) \<Rightarrow> (timer_id \<rightharpoonup> session_id)" where
  "clear_timer t ts = (case t of Some h \<Rightarrow> ts(h := None) | None \<Rightarrow> ts)"

text \<open>The session after one accepted guess has been counted.\<close>

definition use_attempt :: "conn_id \<Rightarrow> player \<Rightarrow> session \<Rightarrow> session" where
  "use_attempt c p s =
     s\<lparr>players := map_set c (p\<lparr>attemptsLeft := attemptsLeft p - 1\<rparr>) (players s)\<rparr>"

text \<open>Invariants of the reachable states.\<close>

definition gm_ok :: "session \<Rightarrow> bool" where
  "gm_ok s = (gm s \<in> set (map_keys (players s)))"

definition gm_inv :: "state \<Rightarrow> bool" where
  "gm_inv st = (\<forall>sid s. sessions st sid = Some s \<longrightarrow> gm_ok s)"

definition timer_inv :: "state \<Rightarrow> bool" where
  "timer_inv st =
     (\<forall>h sid. timers st h = Some sid \<longrightarrow>
        h < next_timer st \<and> (\<exists>s. sessions st sid = Some s \<and> inProgress s \<and> timer s = Some h))"

definition attempts_ok :: "session \<Rightarrow> bool" where
  "attempts_ok s = (\<forall>kp \<in> set (players s). 0 \<le> attemptsLeft (snd kp))"

definition sock_inv :: "state \<Rightarrow> bool" where
  "sock_inv st =
     (\<forall>c sid. sessionId (sockets st c) = Some sid \<longrightarrow>
        (\<exists>s. sessions st sid = Some s \<and> c \<in> set (map_keys (players s))))"

text \<open>Every way in which one event can change a session that exists before and after it.\<close>

inductive session_change :: "state \<Rightarrow> session_id \<Rightarrow> session \<Rightarrow> session \<Rightarrow> bool"
  for st :: state and sid :: session_id and s :: session where
  joined: "\<not> inProgress s \<Longrightarrow>
      session_change st sid s
        (s\<lparr>players := map_set c \<lparr>player_id = c, name = nm, score = 0, attemptsLeft = 0\<rparr> (players s)\<rparr>)"
| left: "map_delete c (players s) \<noteq> [] \<Longrightarrow>
      \<not> (inProgress s \<and> length (map_delete c (players s)) < 2) \<Longrightarrow>
      session_change st sid s (drop_player c s)"
| left_forced_end: "map_delete c (players s) \<noteq> [] \<Longrightarrow> inProgress s \<Longrightarrow>
      length (map_delete c (players s)) < 2 \<Longrightarrow>
      session_change st sid s (end_round None (drop_player c s))"
| question_set: "\<not> inProgress s \<Longrightarrow>
      session_change st sid s (s\<lparr>question := Some q, answerOriginal := Some a, answer := Some a'\<rparr>)"
| started: "\<not> inProgress s \<Longrightarrow>
      session_change st sid s
        (s\<lparr>players := map (\<lambda>p. (fst p, (snd p)\<lparr>attemptsLeft := 3\<rparr>)) (players s),
           inProgress := True, winner := None, timer := Some h\<rparr>)"
| attempt_used: "inProgress s \<Longrightarrow> map_of (players s) c = Some p \<Longrightarrow> 0 < attemptsLeft p \<Longrightarrow>
      session_change st sid s (use_attempt c p s)"
| won: "inProgress s \<Longrightarrow> map_of (players s) c = Some p \<Longrightarrow> 0 < attemptsLeft p \<Longrightarrow>
      \<not> truthy (winner s) \<Longrightarrow>
      session_change st sid s (end_round (Some c) ((use_attempt c p s)\<lparr>winner := Some c\<rparr>))"
| timed_out: "timers st h = Some sid \<Longrightarrow> session_change st sid s (end_round None s)"

text \<open>What a connection receives: the messages of the emissions that reach it, in order.\<close>

fun reaches :: "conn_id \<Rightarrow> emission \<Rightarrow> bool" where
  "reaches d (Emit_socket c m) = (c = d)"
| "reaches d (Emit_room r members m) = (d \<in> members)"

fun payload :: "emission \<Rightarrow> message" where
  "payload (Emit_socket c m) = m"
| "payload (Emit_room r members m) = m"

definition received_by :: "conn_id \<Rightarrow> emission list \<Rightarrow> message list" where
  "received_by d es = map payload (filter (reaches d) es)"

text \<open>The session id that \<open>create_session\<close> works with: the trimmed id of the caller, or
  the generated candidate when the caller gave none (or a blank one).\<close>

definition id_in_effect :: "string option \<Rightarrow> string \<Rightarrow> session_id" where
  "id_in_effect sessionId_in rnd =
     (case sessionId_in of Some x \<Rightarrow> if trim x \<noteq> [] then trim x else rnd | None \<Rightarrow> rnd)"

text \<open>Join order: the element that follows the first occurrence of \<open>x\<close>, if there is one.\<close>

fun successor_in :: "'a list \<Rightarrow> 'a \<Rightarrow> 'a option" where
  "successor_in [] x = None"
| "successor_in [y] x = None"
| "successor_in (y # z # zs) x = (if y = x then Some z else successor_in (z # zs) x)"

text \<open>The player who follows \<open>g\<close> in join order; the first player when \<open>g\<close> is the last
  one or is not in the list.\<close>

definition next_in_join_order :: "conn_id list \<Rightarrow> conn_id \<Rightarrow> conn_id" where
  "next_in_join_order ids g = (case successor_in ids g of Some n \<Rightarrow> n | None \<Rightarrow> hd ids)"

text \<open>Concrete runs: three players in the lobby of session \<open>r\<close>, and the same session with
  a round in progress.\<close>

definition lobby_events :: "event list" where
  "lobby_events =
     [Create_session ''c1'' (Some ''Ann'') (Some ''r'') ''x'',
      Join_session ''c2'' (Some ''r'') (Some ''Bob''),
      Join_session ''c3'' (Some ''r'') (Some ''Cy'')]"

definition round_events :: "event list" where
  "round_events = lobby_events @
     [Set_question ''c1'' (Some ''Capital of France'') (Some ''Paris''),
      Start_game ''c1'']"

text \<open>Two more runs: the round of \<open>r\<close> after Bob's connection dropped, and the third round of
  \<open>r\<close>, whose Game Master is the player who joined last.\<close>

definition duel_events :: "event list" where
  "duel_events = round_events @ [Disconnect ''c2'']"

definition third_round_events :: "event list" where
  "third_round_events = round_events @
     [Timer_fired 0,
      Set_question ''c2'' (Some ''2 + 2'') (Some ''4''), Start_game ''c2'',
      Timer_fired 1,
      Set_question ''c3'' (Some ''Largest planet'') (Some ''Jupiter''), Start_game ''c3'']"

text \<open>The round of \<open>r\<close> after Bob has used his three attempts, and after Cy has won it.\<close>

definition exhausted_events :: "event list" where
  "exhausted_events = round_events @
     [Guess ''c2'' (Some ''Rome''), Guess ''c2'' (Some ''Oslo''), Guess ''c2'' (Some ''Bern'')]"

definition won_events :: "event list" where
  "won_events = round_events @ [Guess ''c3'' (Some '' Paris '')]"

text \<open>Two runs in which a connection acts while it is already a member: Cy joins \<open>r\<close>
  again after winning a round there, and Bob creates a session \<open>q\<close> while he is in the
  lobby of \<open>r\<close> and then loses his connection.\<close>

definition rejoin_events :: "event list" where
  "rejoin_events = won_events @ [Join_session ''c3'' (Some ''r'') (Some ''Cy'')]"

definition second_session_events :: "event list" where
  "second_session_events = lobby_events @
     [Create_session ''c2'' (Some ''Bob'') (Some ''q'') ''x'', Disconnect ''c2'']"

section \<open>Lemmas\<close>

subsection \<open>Fields after an emission\<close>

lemma emit_socket_fields [simp]:
  "sessions (emit_socket c m st) = sessions st"
  "sockets (emit_socket c m st) = sockets st"
  "rooms (emit_socket c m st) = rooms st"
  "timers (emit_socket c m st) = timers st"
  "next_timer (emit_socket c m st) = next_timer st"
  "emitted (emit_socket c m st) = emitted st @ [Emit_socket c m]"
  by (simp_all add: emit_socket_def)

lemma emit_room_fields [simp]:
  "sessions (emit_room r m st) = sessions st"
  "sockets (emit_room r m st) = sockets st"
  "rooms (emit_room r m st) = rooms st"
  "timers (emit_room r m st) = timers st"
  "next_timer (emit_room r m st) = next_timer st"
  "emitted (emit_room r m st) = emitted st @ [Emit_room r (rooms st r) m]"
  by (simp_all add: emit_room_def)

lemma broadcast_fields [simp]:
  "sessions (broadcastSessionState s st) = sessions st"
  "sockets (broadcastSessionState s st) = sockets st"
  "rooms (broadcastSessionState s st) = rooms st"
  "timers (broadcastSessionState s st) = timers st"
  "next_timer (broadcastSessionState s st) = next_timer st"
  "emitted (broadcastSessionState s st) =
     emitted st @ [Emit_room (sess_id s) (rooms st (sess_id s)) (session_view s)]"
  by (simp_all add: broadcastSessionState_def)

lemma endGame_sessions:
  "sessions (endGame sid r w st) =
     (case sessions st sid of None \<Rightarrow> sessions st | Some s \<Rightarrow> (sessions st)(sid \<mapsto> end_round w s))"
  by (simp add: endGame_def end_round_def Let_def split: option.splits)

lemma endGame_timers:
  "timers (endGame sid r w st) =
     (case sessions st sid of None \<Rightarrow> timers st | Some s \<Rightarrow> clear_timer (timer s) (timers st))"
  by (simp add: endGame_def clear_timer_def Let_def split: option.splits)

lemma endGame_other [simp]:
  "sockets (endGame sid r w st) = sockets st"
  "rooms (endGame sid r w st) = rooms st"
  "next_timer (endGame sid r w st) = next_timer st"
  by (simp_all add: endGame_def Let_def split: option.splits)

lemma leaveSessionByUser_sessions:
  "sessions (leaveSessionByUser sid c st) =
     (case sessions st sid of
        None \<Rightarrow> sessions st
      | Some s \<Rightarrow>
          if map_delete c (players s) = [] then (sessions st)(sid := None)
          else if inProgress s \<and> length (map_delete c (players s)) < 2
               then (sessions st)(sid \<mapsto> end_round None (drop_player c s))
               else (sessions st)(sid \<mapsto> drop_player c s))"
  by (auto simp add: leaveSessionByUser_def drop_player_def Let_def endGame_sessions split: option.splits)

lemma leaveSessionByUser_timers:
  "timers (leaveSessionByUser sid c st) =
     (case sessions st sid of
        None \<Rightarrow> timers st
      | Some s \<Rightarrow>
          if map_delete c (players s) = [] \<or> inProgress s \<and> length (map_delete c (players s)) < 2
          then clear_timer (timer s) (timers st) else timers st)"
  by (auto simp add: leaveSessionByUser_def drop_player_def Let_def endGame_timers clear_timer_def split: option.splits)

lemma leaveSessionByUser_next_timer [simp]:
  "next_timer (leaveSessionByUser sid c st) = next_timer st"
  by (auto simp add: leaveSessionByUser_def Let_def split: option.splits)

lemma leaveSessionOnDisconnect_sessions:
  "sessions (leaveSessionOnDisconnect c sid st) = sessions (leaveSessionByUser sid c st)"
  by (auto simp add: leaveSessionByUser_def leaveSessionOnDisconnect_def Let_def endGame_sessions split: option.splits)

lemma leaveSessionOnDisconnect_timers:
  "timers (leaveSessionOnDisconnect c sid st) = timers (leaveSessionByUser sid c st)"
  by (auto simp add: leaveSessionByUser_def leaveSessionOnDisconnect_def Let_def endGame_timers split: option.splits)

lemma leaveSessionOnDisconnect_next_timer [simp]:
  "next_timer (leaveSessionOnDisconnect c sid st) = next_timer st"
  by (auto simp add: leaveSessionOnDisconnect_def Let_def split: option.splits)


subsection \<open>Maps and lists\<close>

lemma map_keys_map_set: "set (map_keys (map_set k v ps)) = insert k (set (map_keys ps))"
  by (induction ps) (auto simp: map_keys_def)

lemma map_keys_map_set_present:
  "map_of ps k = Some p \<Longrightarrow> map_keys (map_set k v ps) = map_keys ps"
  by (induction ps) (auto simp: map_keys_def)

lemma map_set_not_Nil [simp]: "map_set k v ps \<noteq> []"
  by (cases ps) auto

lemma map_keys_map_delete: "set (map_keys (map_delete k ps)) = set (map_keys ps) - {k}"
  by (auto simp: map_keys_def map_delete_def)

lemma map_keys_map_snd [simp]: "map_keys (map (\<lambda>p. (fst p, f (snd p))) ps) = map_keys ps"
  by (simp add: map_keys_def comp_def)

lemma indexOf_bounds: "- 1 \<le> indexOf xs x \<and> indexOf xs x < int (length xs)"
  by (induction xs) (auto simp: Let_def)

lemma indexOf_absent: "x \<notin> set xs \<Longrightarrow> indexOf xs x = - 1"
  by (induction xs) (auto simp: Let_def)

lemma indexOf_present: "x \<in> set xs \<Longrightarrow> 0 \<le> indexOf xs x"
  by (induction xs) (auto simp: Let_def)

lemma hd_filter_mem: "filter P xs \<noteq> [] \<Longrightarrow> hd (filter P xs) \<in> set xs \<and> P (hd (filter P xs))"
  by (induction xs) (auto split: if_splits)

subsection \<open>The Game Master is a player\<close>

lemma rotate_gm_players [simp]: "players (rotate_gm s) = players s"
  by (simp add: rotate_gm_def Let_def)

lemma award_points_keys [simp]: "map_keys (players (award_points w s)) = map_keys (players s)"
  by (auto simp: award_points_def map_keys_map_set_present split: option.splits)

lemma end_round_keys [simp]: "map_keys (players (end_round w s)) = map_keys (players s)"
  by (simp add: end_round_def reset_round_def)

lemma gm_rotate_gm_mem:
  assumes "players s \<noteq> []"
  shows "gm (rotate_gm s) \<in> set (map_keys (players s))"
proof -
  let ?ids = "map_keys (players s)"
  let ?i = "indexOf ?ids (gm s)"
  have len: "0 < length ?ids" using assms by (simp add: map_keys_def)
  have "nat (if ?i \<ge> 0 then (?i + 1) mod int (length ?ids) else 0) < length ?ids"
    using len by (auto simp: nat_less_iff)
  then have "?ids ! nat (if ?i \<ge> 0 then (?i + 1) mod int (length ?ids) else 0) \<in> set ?ids"
    by (rule nth_mem)
  then show ?thesis using len by (simp add: rotate_gm_def Let_def)
qed

lemma gm_ok_end_round: "players s \<noteq> [] \<Longrightarrow> gm_ok (end_round w s)"
proof -
  assume ne: "players s \<noteq> []"
  let ?s2 = "award_points w (s\<lparr>timer := None, inProgress := False, winner := w\<rparr>)"
  have "map_keys (players ?s2) = map_keys (players s)" by simp
  with ne have "players ?s2 \<noteq> []" by (auto simp: map_keys_def)
  from gm_rotate_gm_mem [OF this]
  have "gm (rotate_gm ?s2) \<in> set (map_keys (players s))" by simp
  then show ?thesis
    by (simp add: gm_ok_def end_round_def reset_round_def)
qed

lemma gm_ok_nonempty: "gm_ok s \<Longrightarrow> players s \<noteq> []"
  by (auto simp: gm_ok_def map_keys_def)

lemma gm_ok_drop_player:
  "gm_ok s \<Longrightarrow> map_delete c (players s) \<noteq> [] \<Longrightarrow> gm_ok (drop_player c s)"
  using hd_filter_mem [of "\<lambda>p. fst p \<noteq> c" "players s"]
  by (auto simp: gm_ok_def drop_player_def Let_def map_keys_def map_delete_def)

lemma drop_player_players [simp]: "players (drop_player c s) = map_delete c (players s)"
  by (simp add: drop_player_def Let_def)

lemma gm_ok_map_set: "gm_ok s \<Longrightarrow> gm_ok (s\<lparr>players := map_set c p (players s)\<rparr>)"
  by (auto simp: gm_ok_def map_keys_map_set)

subsection \<open>What one event does to one session\<close>

lemma guess_accepted:
  assumes "sessionId (sockets st c) = Some sid" "sid \<noteq> []" "sessions st sid = Some s"
    "inProgress s" "map_of (players s) c = Some p" "0 < attemptsLeft p"
    "trim (js_or g []) \<noteq> []"
  shows "guess c g st =
     (let s1 = use_attempt c p s;
          st3 = broadcastSessionState s1
                  (emit_room sid
                     (System_message
                        (guess_narration (name p) (trim (js_or g [])) (attemptsLeft p - 1)))
                     (st\<lparr>sessions := (sessions st)(sid \<mapsto> s1)\<rparr>))
      in if Some (trim (toLowerCase (trim (js_or g [])))) = answer s then
           (if \<not> truthy (winner s) then
              endGame sid ''correct_guess'' (Some c)
                (st3\<lparr>sessions := (sessions st3)(sid \<mapsto> s1\<lparr>winner := Some c\<rparr>)\<rparr>)
            else st3)
         else if attemptsLeft p - 1 \<le> 0 then
           emit_socket c (System_message ''You have used all your attempts for this round.'') st3
         else st3)"
  using assms by (simp add: guess_def Let_def use_attempt_def)

lemma guess_rejected:
  assumes "\<not> (\<exists>sid s p. sessionId (sockets st c) = Some sid \<and> sid \<noteq> [] \<and> sessions st sid = Some s
              \<and> inProgress s \<and> map_of (players s) c = Some p \<and> 0 < attemptsLeft p
              \<and> trim (js_or g []) \<noteq> [])"
  shows "\<exists>t. guess c g st = emit_socket c (Error_message t) st"
proof (cases "sessionId (sockets st c)")
  case None
  then show ?thesis by (auto simp: guess_def)
next
  case (Some sid)
  show ?thesis
  proof (cases "sid = []")
    case True
    with Some show ?thesis by (auto simp: guess_def)
  next
    case ne: False
    show ?thesis
    proof (cases "sessions st sid")
      case None
      with Some ne show ?thesis by (auto simp: guess_def)
    next
      case (Some s)
      note s = this
      show ?thesis
      proof (cases "map_of (players s) c")
        case None
        with \<open>sessionId (sockets st c) = Some sid\<close> ne s show ?thesis
          by (auto simp: guess_def)
      next
        case (Some p)
        with \<open>sessionId (sockets st c) = Some sid\<close> ne s assms
        have "\<not> inProgress s \<or> attemptsLeft p \<le> 0 \<or> trim (js_or g []) = []"
          by force
        with Some \<open>sessionId (sockets st c) = Some sid\<close> ne s show ?thesis
          by (auto simp: guess_def Let_def)
      qed
    qed
  qed
qed

lemma guess_session_change:
  assumes "sessions st sid = Some s" "sessions (guess c g st) sid = Some s'"
  shows "s' = s \<or> session_change st sid s s'"
proof (cases "\<exists>sid s p. sessionId (sockets st c) = Some sid \<and> sid \<noteq> [] \<and> sessions st sid = Some s
              \<and> inProgress s \<and> map_of (players s) c = Some p \<and> 0 < attemptsLeft p
              \<and> trim (js_or g []) \<noteq> []")
  case False
  from guess_rejected [OF this] assms show ?thesis by auto
next
  case True
  then obtain sid0 s0 p where a: "sessionId (sockets st c) = Some sid0" "sid0 \<noteq> []"
    "sessions st sid0 = Some s0" "inProgress s0" "map_of (players s0) c = Some p"
    "0 < attemptsLeft p" "trim (js_or g []) \<noteq> []" by blast
  show ?thesis
  proof (cases "sid = sid0")
    case False
    with assms show ?thesis
      by (auto simp: guess_accepted [OF a] Let_def endGame_sessions split: if_splits)
  next
    case True
    with a assms have [simp]: "s0 = s" by simp
    from a True have u: "session_change st sid s (use_attempt c p s)"
      by (auto intro: session_change.attempt_used)
    have w: "session_change st sid s (end_round (Some c) ((use_attempt c p s)\<lparr>winner := Some c\<rparr>))"
      if "\<not> truthy (winner s)"
      using a True that by (auto intro: session_change.won)
    from assms True u w show ?thesis
      by (auto simp: guess_accepted [OF a] Let_def endGame_sessions simp del: truthy.simps
               split: if_splits)
  qed
qed

lemma leaveSessionByUser_session_change:
  assumes "sessions st sid = Some s" "sessions (leaveSessionByUser sid0 c st) sid = Some s'"
  shows "s' = s \<or> session_change st sid s s'"
  using assms
  by (auto simp: leaveSessionByUser_sessions split: option.splits if_splits
           intro: session_change.left session_change.left_forced_end)

lemma step_session_change:
  assumes "sessions st sid = Some s" "sessions (step ev st) sid = Some s'"
  shows "s' = s \<or> session_change st sid s s'"
proof (cases ev)
  case (Create_session c nm i rnd)
  with assms show ?thesis
    by (auto simp: create_session_def Let_def split: if_splits)
next
  case (Join_session c i nm)
  with assms show ?thesis
    by (auto simp: join_session_def Let_def split: option.splits if_splits
             intro: session_change.joined)
next
  case (Leave_session c)
  with assms leaveSessionByUser_session_change [of st sid s _ c s'] show ?thesis
    by (auto simp: leave_session_def Let_def split: if_splits)
next
  case (Set_question c q a)
  with assms show ?thesis
    by (auto simp: set_question_def Let_def split: option.splits if_splits
             intro: session_change.question_set)
next
  case (Start_game c)
  with assms show ?thesis
    by (auto simp: start_game_def Let_def split: option.splits if_splits
             intro: session_change.started)
next
  case (Guess c g)
  with assms guess_session_change show ?thesis by simp
next
  case (Get_session_state c)
  with assms show ?thesis
    by (auto simp: get_session_state_def split: option.splits if_splits)
next
  case (Disconnect c)
  with assms leaveSessionByUser_session_change [of st sid s _ c s'] show ?thesis
    by (auto simp: disconnect_def leaveSessionOnDisconnect_sessions split: if_splits)
next
  case (Timer_fired h)
  with assms show ?thesis
    by (auto simp: timer_fired_def endGame_sessions split: option.splits if_splits
             intro: session_change.timed_out)
qed

lemma step_session_created:
  assumes "sessions st sid = None" "sessions (step ev st) sid = Some s'"
  shows "sid \<notin> set object_prototype_keys \<and> (\<exists>c nm. s' = \<lparr>sess_id = sid,
            players = [(c, \<lparr>player_id = c, name = nm, score = 0, attemptsLeft = 0\<rparr>)], gm = c,
            question = None, answer = None, answerOriginal = None, inProgress = False,
            timer = None, winner = None\<rparr>)"
proof (cases ev)
  case (Create_session c nm i rnd)
  with assms show ?thesis
    by (auto simp: create_session_def Let_def split: if_splits)
next
  case (Join_session c i nm)
  with assms show ?thesis
    by (auto simp: join_session_def Let_def split: option.splits if_splits)
next
  case (Leave_session c)
  with assms show ?thesis
    by (auto simp: leave_session_def Let_def leaveSessionByUser_sessions split: option.splits if_splits)
next
  case (Set_question c q a)
  with assms show ?thesis
    by (auto simp: set_question_def Let_def split: option.splits if_splits)
next
  case (Start_game c)
  with assms show ?thesis
    by (auto simp: start_game_def Let_def split: option.splits if_splits)
next
  case (Guess c g)
  show ?thesis
  proof (cases "\<exists>sid s p. sessionId (sockets st c) = Some sid \<and> sid \<noteq> [] \<and> sessions st sid = Some s
              \<and> inProgress s \<and> map_of (players s) c = Some p \<and> 0 < attemptsLeft p
              \<and> trim (js_or g []) \<noteq> []")
    case False
    from guess_rejected [OF this] assms Guess show ?thesis by auto
  next
    case True
    then obtain sid0 s0 p where a: "sessionId (sockets st c) = Some sid0" "sid0 \<noteq> []"
      "sessions st sid0 = Some s0" "inProgress s0" "map_of (players s0) c = Some p"
      "0 < attemptsLeft p" "trim (js_or g []) \<noteq> []" by blast
    with assms Guess show ?thesis
      by (auto simp: guess_accepted [OF a] Let_def endGame_sessions split: if_splits)
  qed
next
  case (Get_session_state c)
  with assms show ?thesis
    by (auto simp: get_session_state_def split: option.splits if_splits)
next
  case (Disconnect c)
  with assms show ?thesis
    by (auto simp: disconnect_def leaveSessionOnDisconnect_sessions leaveSessionByUser_sessions
             split: option.splits if_splits)
next
  case (Timer_fired h)
  with assms show ?thesis
    by (auto simp: timer_fired_def endGame_sessions split: option.splits if_splits)
qed

subsection \<open>Session invariants\<close>

lemma session_invariant_step:
  assumes inv: "\<And>sid s. sessions st sid = Some s \<Longrightarrow> P s"
    and change: "\<And>sid s s'. P s \<Longrightarrow> session_change st sid s s' \<Longrightarrow> P s'"
    and fresh: "\<And>sid c nm.
       P \<lparr>sess_id = sid,
          players = [(c, \<lparr>player_id = c, name = nm, score = 0, attemptsLeft = 0\<rparr>)], gm = c,
          question = None, answer = None, answerOriginal = None, inProgress = False,
          timer = None, winner = None\<rparr>"
    and after: "sessions (step ev st) sid = Some s'"
  shows "P s'"
proof (cases "sessions st sid")
  case None
  from step_session_created [OF None after] fresh show ?thesis by auto
next
  case (Some s)
  from step_session_change [OF Some after] inv [OF Some] change show ?thesis by auto
qed

lemma gm_ok_session_change:
  assumes "gm_ok s" "session_change st sid s s'"
  shows "gm_ok s'"
  using assms(2)
proof cases
  case (joined c nm)
  with assms(1) show ?thesis by (simp add: gm_ok_map_set)
next
  case (left c)
  with assms(1) show ?thesis by (simp add: gm_ok_drop_player)
next
  case (left_forced_end c)
  then show ?thesis by (simp add: gm_ok_end_round)
next
  case (question_set q a a')
  with assms(1) show ?thesis by (simp add: gm_ok_def)
next
  case (started h)
  with assms(1) show ?thesis by (simp add: gm_ok_def)
next
  case (attempt_used c p)
  with assms(1) show ?thesis by (simp add: use_attempt_def gm_ok_map_set)
next
  case (won c p)
  then show ?thesis by (simp add: use_attempt_def gm_ok_end_round)
next
  case (timed_out h)
  with assms(1) show ?thesis by (simp add: gm_ok_end_round gm_ok_nonempty)
qed

lemma gm_inv_step: "gm_inv st \<Longrightarrow> gm_inv (step ev st)"
  unfolding gm_inv_def
proof (intro allI impI)
  fix sid s'
  assume inv: "\<forall>sid s. sessions st sid = Some s \<longrightarrow> gm_ok s"
    and after: "sessions (step ev st) sid = Some s'"
  show "gm_ok s'"
  proof (rule session_invariant_step [where P = gm_ok, OF _ _ _ after])
    show "\<And>sid s. sessions st sid = Some s \<Longrightarrow> gm_ok s" using inv by blast
    show "\<And>sid s s'. gm_ok s \<Longrightarrow> session_change st sid s s' \<Longrightarrow> gm_ok s'"
      by (rule gm_ok_session_change)
    show "\<And>sid c nm. gm_ok \<lparr>sess_id = sid,
          players = [(c, \<lparr>player_id = c, name = nm, score = 0, attemptsLeft = 0\<rparr>)], gm = c,
          question = None, answer = None, answerOriginal = None, inProgress = False,
          timer = None, winner = None\<rparr>"
      by (simp add: gm_ok_def map_keys_def)
  qed
qed

text \<open>The table never holds a session under a name inherited from \<open>Object.prototype\<close>.\<close>

lemma reachable_session_ids:
  "reachable st \<Longrightarrow> sessions st sid = Some s \<Longrightarrow> sid \<notin> set object_prototype_keys"
proof (induction arbitrary: s rule: reachable.induct)
  case reachable_init
  then show ?case by (simp add: init_state_def)
next
  case (reachable_step st ev)
  show ?case
  proof (cases "sessions st sid")
    case None
    from step_session_created [OF None reachable_step.prems] show ?thesis by simp
  next
    case (Some s0)
    then show ?thesis by (rule reachable_step.IH)
  qed
qed

lemma reachable_gm_inv: "reachable st \<Longrightarrow> gm_inv st"
proof (induction rule: reachable.induct)
  case reachable_init
  show ?case by (simp add: gm_inv_def init_state_def)
next
  case (reachable_step st ev)
  then show ?case by (simp add: gm_inv_step)
qed

subsection \<open>Pending timers\<close>

lemma timer_inv_preserved:
  assumes inv: "timer_inv st"
    and nt: "next_timer st \<le> next_timer st'"
    and old: "\<And>h sid. timers st' h = Some sid \<Longrightarrow> timers st h = Some sid"
    and keep: "\<And>h sid s. timers st' h = Some sid \<Longrightarrow> sessions st sid = Some s \<Longrightarrow>
                 inProgress s \<Longrightarrow> timer s = Some h \<Longrightarrow>
                 \<exists>s'. sessions st' sid = Some s' \<and> inProgress s' \<and> timer s' = Some h"
  shows "timer_inv st'"
  unfolding timer_inv_def
proof (intro allI impI)
  fix h sid
  assume p: "timers st' h = Some sid"
  from old [OF p] inv obtain s where s: "h < next_timer st" "sessions st sid = Some s"
    "inProgress s" "timer s = Some h"
    unfolding timer_inv_def by blast
  from keep [OF p s(2-4)] s(1) nt
  show "h < next_timer st' \<and> (\<exists>s. sessions st' sid = Some s \<and> inProgress s \<and> timer s = Some h)"
    by auto
qed

lemma end_round_idle [simp]: "inProgress (end_round w s) = False" "timer (end_round w s) = None"
  by (simp_all add: end_round_def reset_round_def rotate_gm_def award_points_def Let_def
        split: option.splits)

lemma drop_player_round [simp]:
  "inProgress (drop_player c s) = inProgress s" "timer (drop_player c s) = timer s"
  "winner (drop_player c s) = winner s"
  by (simp_all add: drop_player_def Let_def)

lemma timer_inv_endGame: "timer_inv st \<Longrightarrow> timer_inv (endGame sid r w st)"
  by (erule timer_inv_preserved)
     (auto simp: endGame_sessions endGame_timers clear_timer_def split: option.splits if_splits)

lemma timer_inv_leaveSessionByUser: "timer_inv st \<Longrightarrow> timer_inv (leaveSessionByUser sid c st)"
  by (erule timer_inv_preserved)
     (auto simp: leaveSessionByUser_sessions leaveSessionByUser_timers clear_timer_def
           split: option.splits if_splits)

lemma timer_inv_leaveSessionOnDisconnect:
  "timer_inv st \<Longrightarrow> timer_inv (leaveSessionOnDisconnect c sid st)"
  using timer_inv_leaveSessionByUser [of st sid c]
  by (simp add: timer_inv_def leaveSessionOnDisconnect_sessions leaveSessionOnDisconnect_timers)

lemma timer_inv_create_session: "timer_inv st \<Longrightarrow> timer_inv (create_session c n i r st)"
  by (erule timer_inv_preserved) (auto simp: create_session_def Let_def split: if_splits)

lemma timer_inv_join_session: "timer_inv st \<Longrightarrow> timer_inv (join_session c i n st)"
  by (erule timer_inv_preserved)
     (auto simp: join_session_def Let_def split: option.splits if_splits)

lemma timer_inv_set_question: "timer_inv st \<Longrightarrow> timer_inv (set_question c q a st)"
  by (erule timer_inv_preserved)
     (auto simp: set_question_def Let_def split: option.splits if_splits)


lemma start_game_rejected:
  assumes "\<not> (\<exists>sid s. sessionId (sockets st c) = Some sid \<and> sid \<noteq> [] \<and> sessions st sid = Some s
              \<and> gm s = c \<and> \<not> inProgress s \<and> 2 \<le> length (players s)
              \<and> truthy (question s) \<and> truthy (answer s))"
  shows "start_game c st = st \<or> (\<exists>t. start_game c st = emit_socket c (Error_message t) st)"
proof (cases "truthy (sessionId (sockets st c))")
  case False
  then show ?thesis by (auto simp: start_game_def)
next
  case True
  then obtain sid where sid: "sessionId (sockets st c) = Some sid" "sid \<noteq> []"
    by (cases "sessionId (sockets st c)") auto
  show ?thesis
  proof (cases "sessions st sid")
    case None
    with sid show ?thesis by (auto simp: start_game_def)
  next
    case s: (Some s)
    with sid assms
    have "gm s \<noteq> c \<or> inProgress s \<or> length (players s) < 2
            \<or> \<not> truthy (question s) \<or> \<not> truthy (answer s)"
      by force
    with sid s show ?thesis
      by (auto simp: start_game_def Let_def)
  qed
qed

lemma start_game_accepted:
  assumes "sessionId (sockets st c) = Some sid" "sid \<noteq> []" "sessions st sid = Some s"
    "gm s = c" "\<not> inProgress s" "2 \<le> length (players s)" "truthy (question s)"
    "truthy (answer s)"
  shows "sessions (start_game c st) =
           (sessions st)(sid \<mapsto> s\<lparr>players := map (\<lambda>p. (fst p, (snd p)\<lparr>attemptsLeft := 3\<rparr>)) (players s),
                                 inProgress := True, winner := None, timer := Some (next_timer st)\<rparr>)"
    and "timers (start_game c st) = (timers st)(next_timer st \<mapsto> sid)"
    and "next_timer (start_game c st) = next_timer st + 1"
    and "sockets (start_game c st) = sockets st"
  using assms by (simp_all add: start_game_def Let_def)

lemma timer_inv_start_game:
  assumes inv: "timer_inv st"
  shows "timer_inv (start_game c st)"
proof (cases "\<exists>sid s. sessionId (sockets st c) = Some sid \<and> sid \<noteq> [] \<and> sessions st sid = Some s
              \<and> gm s = c \<and> \<not> inProgress s \<and> 2 \<le> length (players s)
              \<and> truthy (question s) \<and> truthy (answer s)")
  case False
  from start_game_rejected [OF this] inv show ?thesis by (auto simp: timer_inv_def)
next
  case True
  then obtain sid s where a: "sessionId (sockets st c) = Some sid" "sid \<noteq> []"
    "sessions st sid = Some s" "gm s = c" "\<not> inProgress s" "2 \<le> length (players s)"
    "truthy (question s)" "truthy (answer s)" by blast
  note eqs = start_game_accepted [OF a]
  show ?thesis
    unfolding timer_inv_def eqs
  proof (intro allI impI)
    fix h sid'
    assume p: "((timers st)(next_timer st \<mapsto> sid)) h = Some sid'"
    show "h < next_timer st + 1 \<and>
          (\<exists>s'. ((sessions st)(sid \<mapsto> s\<lparr>players := map (\<lambda>p. (fst p, (snd p)\<lparr>attemptsLeft := 3\<rparr>)) (players s),
                                 inProgress := True, winner := None, timer := Some (next_timer st)\<rparr>)) sid' = Some s'
               \<and> inProgress s' \<and> timer s' = Some h)"
    proof (cases "h = next_timer st")
      case True
      with p show ?thesis by simp
    next
      case False
      with p have "timers st h = Some sid'" by simp
      with inv obtain s' where s': "h < next_timer st" "sessions st sid' = Some s'"
        "inProgress s'" "timer s' = Some h"
        unfolding timer_inv_def by blast
      with a have "sid' \<noteq> sid" by auto
      with s' show ?thesis by simp
    qed
  qed
qed

lemma timer_inv_guess:
  assumes inv: "timer_inv st"
  shows "timer_inv (guess c g st)"
proof (cases "\<exists>sid s p. sessionId (sockets st c) = Some sid \<and> sid \<noteq> [] \<and> sessions st sid = Some s
              \<and> inProgress s \<and> map_of (players s) c = Some p \<and> 0 < attemptsLeft p
              \<and> trim (js_or g []) \<noteq> []")
  case False
  from guess_rejected [OF this] inv show ?thesis by (auto simp: timer_inv_def)
next
  case True
  then obtain sid s p where a: "sessionId (sockets st c) = Some sid" "sid \<noteq> []"
    "sessions st sid = Some s" "inProgress s" "map_of (players s) c = Some p"
    "0 < attemptsLeft p" "trim (js_or g []) \<noteq> []" by blast
  from inv show ?thesis
    by (rule timer_inv_preserved)
       (auto simp: guess_accepted [OF a] Let_def endGame_sessions endGame_timers clear_timer_def
          use_attempt_def a simp del: truthy.simps split: if_splits option.splits)
qed

lemma timer_inv_timer_fired: "timer_inv st \<Longrightarrow> timer_inv (timer_fired h st)"
  by (erule timer_inv_preserved)
     (auto simp: timer_fired_def endGame_sessions endGame_timers clear_timer_def
           split: option.splits if_splits)

lemma timer_inv_leave_session: "timer_inv st \<Longrightarrow> timer_inv (leave_session c st)"
  using timer_inv_leaveSessionByUser [of st "the (sessionId (sockets st c))" c]
  by (simp add: leave_session_def Let_def timer_inv_def)

lemma timer_inv_get_session_state: "timer_inv st \<Longrightarrow> timer_inv (get_session_state c st)"
  by (simp add: get_session_state_def timer_inv_def split: option.splits)

lemma timer_inv_disconnect: "timer_inv st \<Longrightarrow> timer_inv (disconnect c st)"
  by (simp add: disconnect_def timer_inv_leaveSessionOnDisconnect)

lemma timer_inv_step: "timer_inv st \<Longrightarrow> timer_inv (step ev st)"
  by (cases ev)
     (simp_all add: timer_inv_create_session timer_inv_join_session timer_inv_leave_session
        timer_inv_set_question timer_inv_start_game timer_inv_guess
        timer_inv_get_session_state timer_inv_disconnect timer_inv_timer_fired)

lemma reachable_timer_inv: "reachable st \<Longrightarrow> timer_inv st"
proof (induction rule: reachable.induct)
  case reachable_init
  show ?case by (simp add: timer_inv_def init_state_def)
next
  case (reachable_step st ev)
  then show ?case by (simp add: timer_inv_step)
qed

subsection \<open>Rotation of the Game Master\<close>

lemma successor_in_absent: "x \<notin> set xs \<Longrightarrow> successor_in xs x = None"
  by (induction xs x rule: successor_in.induct) auto

lemma successor_in_present:
  "x \<in> set xs \<Longrightarrow>
   successor_in xs x =
     (if indexOf xs x + 1 < int (length xs) then Some (xs ! nat (indexOf xs x + 1)) else None)"
proof (induction xs x rule: successor_in.induct)
  case (1 x)
  then show ?case by simp
next
  case (2 y x)
  then show ?case by simp
next
  case (3 y z zs x)
  show ?case
  proof (cases "y = x")
    case True
    then show ?thesis by simp
  next
    case False
    with 3 have mem: "x \<in> set (z # zs)" by simp
    from indexOf_present [OF mem] have nn: "0 \<le> indexOf (z # zs) x" .
    from False nn have idx: "indexOf (y # z # zs) x = indexOf (z # zs) x + 1"
      by (simp add: Let_def)
    from nn have nth: "(y # z # zs) ! nat (indexOf (z # zs) x + 1 + 1) = (z # zs) ! nat (indexOf (z # zs) x + 1)"
      by (simp add: nat_add_distrib)
    from False 3 mem have "successor_in (y # z # zs) x =
       (if indexOf (z # zs) x + 1 < int (length (z # zs))
        then Some ((z # zs) ! nat (indexOf (z # zs) x + 1)) else None)"
      by simp
    then show ?thesis
      unfolding idx nth by simp
  qed
qed

lemma rotate_index:
  assumes "ids \<noteq> []"
  shows "ids ! nat (if indexOf ids g \<ge> 0 then (indexOf ids g + 1) mod int (length ids) else 0)
           = next_in_join_order ids g"
proof (cases "g \<in> set ids")
  case False
  with assms show ?thesis
    by (simp add: indexOf_absent successor_in_absent next_in_join_order_def hd_conv_nth)
next
  case True
  from indexOf_present [OF True] indexOf_bounds [of ids g]
  have b: "0 \<le> indexOf ids g" "indexOf ids g < int (length ids)" by simp_all
  show ?thesis
  proof (cases "indexOf ids g + 1 < int (length ids)")
    case True
    with b have "(indexOf ids g + 1) mod int (length ids) = indexOf ids g + 1"
      by simp
    with True b \<open>g \<in> set ids\<close> show ?thesis
      by (simp add: successor_in_present next_in_join_order_def)
  next
    case False
    with b have "indexOf ids g + 1 = int (length ids)" by simp
    then have "(indexOf ids g + 1) mod int (length ids) = 0" by simp
    with False b \<open>g \<in> set ids\<close> assms show ?thesis
      by (simp add: successor_in_present next_in_join_order_def hd_conv_nth)
  qed
qed

lemma award_points_gm [simp]: "gm (award_points w s) = gm s"
  by (simp add: award_points_def split: option.splits)

lemma gm_end_round:
  assumes "players s \<noteq> []"
  shows "gm (end_round w s) = next_in_join_order (map_keys (players s)) (gm s)"
proof -
  let ?s2 = "award_points w (s\<lparr>timer := None, inProgress := False, winner := w\<rparr>)"
  have k: "map_keys (players ?s2) = map_keys (players s)" by simp
  from assms have ne: "map_keys (players s) \<noteq> []" by (simp add: map_keys_def)
  have "gm (rotate_gm ?s2) = next_in_join_order (map_keys (players s)) (gm s)"
    using ne rotate_index [OF ne, of "gm s"]
    by (simp add: rotate_gm_def Let_def k)
  then show ?thesis by (simp add: end_round_def reset_round_def)
qed

lemma next_in_join_order_single [simp]: "next_in_join_order [x] g = x"
  by (simp add: next_in_join_order_def)

subsection \<open>Attempts never go below zero\<close>

lemma set_map_set: "set (map_set k v ps) \<subseteq> insert (k, v) (set ps)"
  by (induction ps) auto

lemma attempts_ok_map_set:
  "attempts_ok s \<Longrightarrow> 0 \<le> attemptsLeft p \<Longrightarrow> attempts_ok (s\<lparr>players := map_set c p (players s)\<rparr>)"
  using set_map_set [of c p "players s"] by (auto simp: attempts_ok_def)

lemma attempts_ok_end_round: "attempts_ok (end_round w s)"
  by (simp add: attempts_ok_def end_round_def reset_round_def)

lemma attempts_ok_drop_player: "attempts_ok s \<Longrightarrow> attempts_ok (drop_player c s)"
  by (auto simp: attempts_ok_def drop_player_def Let_def map_delete_def)

lemma attempts_ok_session_change:
  assumes "attempts_ok s" "session_change st sid s s'"
  shows "attempts_ok s'"
  using assms(2)
proof cases
  case (joined c nm)
  with assms(1) show ?thesis by (simp add: attempts_ok_map_set)
next
  case (left c)
  with assms(1) show ?thesis by (simp add: attempts_ok_drop_player)
next
  case (left_forced_end c)
  then show ?thesis by (simp add: attempts_ok_end_round)
next
  case (question_set q a a')
  with assms(1) show ?thesis by (simp add: attempts_ok_def)
next
  case (started h)
  then show ?thesis by (simp add: attempts_ok_def)
next
  case (attempt_used c p)
  with assms(1) show ?thesis by (simp add: use_attempt_def attempts_ok_map_set)
next
  case (won c p)
  then show ?thesis by (simp add: attempts_ok_end_round)
next
  case (timed_out h)
  then show ?thesis by (simp add: attempts_ok_end_round)
qed

lemma attempts_ok_step:
  assumes "\<And>sid s. sessions st sid = Some s \<Longrightarrow> attempts_ok s"
    and "sessions (step ev st) sid = Some s'"
  shows "attempts_ok s'"
proof (rule session_invariant_step [where P = attempts_ok, OF _ _ _ assms(2)])
  show "\<And>sid s. sessions st sid = Some s \<Longrightarrow> attempts_ok s" by (rule assms(1))
  show "\<And>sid s s'. attempts_ok s \<Longrightarrow> session_change st sid s s' \<Longrightarrow> attempts_ok s'"
    by (rule attempts_ok_session_change)
  show "\<And>sid c nm. attempts_ok \<lparr>sess_id = sid,
          players = [(c, \<lparr>player_id = c, name = nm, score = 0, attemptsLeft = 0\<rparr>)], gm = c,
          question = None, answer = None, answerOriginal = None, inProgress = False,
          timer = None, winner = None\<rparr>"
    by (simp add: attempts_ok_def)
qed

lemma reachable_attempts_ok: "reachable st \<Longrightarrow> sessions st sid = Some s \<Longrightarrow> attempts_ok s"
proof (induction arbitrary: sid s rule: reachable.induct)
  case reachable_init
  then show ?case by (simp add: init_state_def)
next
  case (reachable_step st ev)
  from reachable_step.IH reachable_step.prems show ?case
    by (rule attempts_ok_step)
qed

lemma reachable_attempts_nonneg:
  "reachable st \<Longrightarrow> sessions st sid = Some s \<Longrightarrow> map_of (players s) c = Some p \<Longrightarrow>
   0 \<le> attemptsLeft p"
  using reachable_attempts_ok [of st sid s] map_of_SomeD [of "players s" c p]
  by (auto simp: attempts_ok_def)

subsection \<open>Guesses and the winner\<close>

lemma guess_session_cases:
  assumes "sessions st sid = Some s"
  shows "sessions (guess c g st) sid = Some s
       \<or> (\<exists>p. sessionId (sockets st c) = Some sid \<and> inProgress s \<and> map_of (players s) c = Some p
              \<and> 0 < attemptsLeft p
              \<and> (sessions (guess c g st) sid = Some (use_attempt c p s)
                  \<or> \<not> truthy (winner s)
                     \<and> sessions (guess c g st) sid =
                         Some (end_round (Some c) ((use_attempt c p s)\<lparr>winner := Some c\<rparr>))))"
proof (cases "\<exists>sid s p. sessionId (sockets st c) = Some sid \<and> sid \<noteq> [] \<and> sessions st sid = Some s
              \<and> inProgress s \<and> map_of (players s) c = Some p \<and> 0 < attemptsLeft p
              \<and> trim (js_or g []) \<noteq> []")
  case False
  from guess_rejected [OF this] assms show ?thesis by auto
next
  case True
  then obtain sid0 s0 p where a: "sessionId (sockets st c) = Some sid0" "sid0 \<noteq> []"
    "sessions st sid0 = Some s0" "inProgress s0" "map_of (players s0) c = Some p"
    "0 < attemptsLeft p" "trim (js_or g []) \<noteq> []" by blast
  show ?thesis
  proof (cases "sid = sid0")
    case False
    with assms show ?thesis
      by (auto simp: guess_accepted [OF a] Let_def endGame_sessions split: if_splits)
  next
    case True
    with a assms have [simp]: "s0 = s" by simp
    from a True assms show ?thesis
      by (auto simp: guess_accepted [OF a] Let_def endGame_sessions simp del: truthy.simps
               split: if_splits)
  qed
qed

lemma winner_end_round [simp]: "winner (end_round w s) = w"
  by (simp add: end_round_def reset_round_def rotate_gm_def award_points_def Let_def
        split: option.splits)

lemma map_of_map_set_same [simp]: "map_of (map_set k v ps) k = Some v"
  by (induction ps) auto

lemma map_of_map_snd:
  "map_of (map (\<lambda>p. (fst p, f (snd p))) ps) k = map_option f (map_of ps k)"
  by (induction ps) auto

lemma winner_session_change:
  assumes "session_change st sid s s'" and "truthy (winner s)"
    and "inProgress s' = inProgress s" and "timer_inv st" and "sessions st sid = Some s"
  shows "winner s' = winner s"
  using assms(1)
proof cases
  case (joined c nm)
  then show ?thesis by simp
next
  case (left c)
  then show ?thesis by simp
next
  case (left_forced_end c)
  with assms(3) show ?thesis by simp
next
  case (question_set q a a')
  then show ?thesis by simp
next
  case (started h)
  with assms(3) show ?thesis by simp
next
  case (attempt_used c p)
  then show ?thesis by (simp add: use_attempt_def)
next
  case (won c p)
  with assms(2) show ?thesis by simp
next
  case (timed_out h)
  with assms(4,5) have "inProgress s" unfolding timer_inv_def by fastforce
  with timed_out assms(3) show ?thesis by simp
qed

text \<open>A round in progress has no winner yet: \<open>start_game\<close> clears the field, and the
  guess that sets it ends the round in the same step.\<close>

lemma no_winner_session_change:
  assumes "inProgress s \<longrightarrow> winner s = None" and "session_change st sid s s'"
  shows "inProgress s' \<longrightarrow> winner s' = None"
  using assms(2)
proof cases
  case (joined c nm)
  then show ?thesis by simp
next
  case (left c)
  with assms(1) show ?thesis by simp
next
  case (left_forced_end c)
  then show ?thesis by simp
next
  case (question_set q a a')
  then show ?thesis by simp
next
  case (started h)
  then show ?thesis by simp
next
  case (attempt_used c p)
  with assms(1) show ?thesis by (simp add: use_attempt_def)
next
  case (won c p)
  then show ?thesis by simp
next
  case (timed_out h)
  then show ?thesis by simp
qed

lemma reachable_no_winner_in_progress:
  "reachable st \<Longrightarrow> sessions st sid = Some s \<Longrightarrow> inProgress s \<longrightarrow> winner s = None"
proof (induction arbitrary: sid s rule: reachable.induct)
  case reachable_init
  then show ?case by (simp add: init_state_def)
next
  case (reachable_step st ev)
  show ?case
  proof (rule session_invariant_step
      [where P = "\<lambda>s. inProgress s \<longrightarrow> winner s = None", OF _ _ _ reachable_step.prems])
    show "\<And>sid s. sessions st sid = Some s \<Longrightarrow> inProgress s \<longrightarrow> winner s = None"
      by (rule reachable_step.IH)
    show "\<And>sid s s'. inProgress s \<longrightarrow> winner s = None \<Longrightarrow> session_change st sid s s' \<Longrightarrow>
            inProgress s' \<longrightarrow> winner s' = None"
      by (rule no_winner_session_change)
    show "\<And>sid c nm. inProgress \<lparr>sess_id = sid,
          players = [(c, \<lparr>player_id = c, name = nm, score = 0, attemptsLeft = 0\<rparr>)], gm = c,
          question = None, answer = None, answerOriginal = None, inProgress = False,
          timer = None, winner = None\<rparr> \<longrightarrow>
        winner \<lparr>sess_id = sid,
          players = [(c, \<lparr>player_id = c, name = nm, score = 0, attemptsLeft = 0\<rparr>)], gm = c,
          question = None, answer = None, answerOriginal = None, inProgress = False,
          timer = None, winner = None\<rparr> = None"
      by simp
  qed
qed

text \<open>The guard \<open>if (!session.winner)\<close> of the guess handler: were a round in progress with
  a winner recorded, a guess would change at most the guesser's \<open>attemptsLeft\<close>. By
  \<open>reachable_no_winner_in_progress\<close> no run reaches such a state.\<close>

lemma guess_with_winner_recorded:
  assumes "sessions st sid = Some s" and "truthy (winner s)"
  shows "\<exists>s'. sessions (guess c g st) sid = Some s'
           \<and> (s' = s
               \<or> (\<exists>p. map_of (players s) c = Some p
                      \<and> s' = s\<lparr>players := map_set c (p\<lparr>attemptsLeft := attemptsLeft p - 1\<rparr>)
                                            (players s)\<rparr>))"
  using assms guess_session_cases [of st sid s c g]
  by (auto simp: use_attempt_def simp del: truthy.simps)

subsection \<open>The session a socket points to\<close>

lemma sock_inv_preserved:
  assumes inv: "sock_inv st"
    and new: "\<And>c sid. sessionId (sockets st' c) = Some sid \<Longrightarrow>
                sessionId (sockets st c) = Some sid
                \<or> (\<exists>s. sessions st' sid = Some s \<and> c \<in> set (map_keys (players s)))"
    and keep: "\<And>c sid s. sessionId (sockets st' c) = Some sid \<Longrightarrow> sessions st sid = Some s \<Longrightarrow>
                 c \<in> set (map_keys (players s)) \<Longrightarrow>
                 \<exists>s'. sessions st' sid = Some s' \<and> c \<in> set (map_keys (players s'))"
  shows "sock_inv st'"
  unfolding sock_inv_def
proof (intro allI impI)
  fix c sid
  assume p: "sessionId (sockets st' c) = Some sid"
  show "\<exists>s. sessions st' sid = Some s \<and> c \<in> set (map_keys (players s))"
  proof (cases "sessionId (sockets st c) = Some sid")
    case True
    with inv obtain s where "sessions st sid = Some s" "c \<in> set (map_keys (players s))"
      unfolding sock_inv_def by blast
    with keep [OF p] show ?thesis by blast
  next
    case False
    with new [OF p] show ?thesis by blast
  qed
qed

lemma leaveSessionByUser_sockets:
  "sockets (leaveSessionByUser sid c st) =
     (case sessions st sid of
        None \<Rightarrow> sockets st
      | Some s \<Rightarrow> (sockets st)(c := \<lparr>sessionId = None, playerName = None\<rparr>))"
  by (auto simp: leaveSessionByUser_def Let_def split: option.splits)

lemma leaveSessionOnDisconnect_sockets:
  "sockets (leaveSessionOnDisconnect c sid st) = sockets (leaveSessionByUser sid c st)"
  by (auto simp: leaveSessionByUser_def leaveSessionOnDisconnect_def Let_def split: option.splits)

lemma guess_sockets [simp]: "sockets (guess c g st) = sockets st"
proof (cases "\<exists>sid s p. sessionId (sockets st c) = Some sid \<and> sid \<noteq> [] \<and> sessions st sid = Some s
              \<and> inProgress s \<and> map_of (players s) c = Some p \<and> 0 < attemptsLeft p
              \<and> trim (js_or g []) \<noteq> []")
  case False
  from guess_rejected [OF this] show ?thesis by auto
next
  case True
  then obtain sid s p where a: "sessionId (sockets st c) = Some sid" "sid \<noteq> []"
    "sessions st sid = Some s" "inProgress s" "map_of (players s) c = Some p"
    "0 < attemptsLeft p" "trim (js_or g []) \<noteq> []" by blast
  show ?thesis by (simp add: guess_accepted [OF a] Let_def del: truthy.simps)
qed

lemma start_game_sockets [simp]: "sockets (start_game c st) = sockets st"
proof (cases "\<exists>sid s. sessionId (sockets st c) = Some sid \<and> sid \<noteq> [] \<and> sessions st sid = Some s
              \<and> gm s = c \<and> \<not> inProgress s \<and> 2 \<le> length (players s)
              \<and> truthy (question s) \<and> truthy (answer s)")
  case False
  from start_game_rejected [OF this] show ?thesis by auto
next
  case True
  then show ?thesis using start_game_accepted(4) by blast
qed

lemma set_question_sockets [simp]: "sockets (set_question c q a st) = sockets st"
  by (simp add: set_question_def Let_def split: option.splits)

lemma timer_fired_sockets [simp]: "sockets (timer_fired h st) = sockets st"
  by (simp add: timer_fired_def split: option.splits)

lemma get_session_state_fields [simp]:
  "sockets (get_session_state c st) = sockets st"
  "sessions (get_session_state c st) = sessions st"
  by (simp_all add: get_session_state_def split: option.splits)

lemma map_delete_Nil_iff: "map_delete c ps = [] \<longleftrightarrow> set (map_keys ps) \<subseteq> {c}"
  by (auto simp: map_delete_def map_keys_def filter_empty_conv)

lemma sock_inv_leaveSessionByUser: "sock_inv st \<Longrightarrow> sock_inv (leaveSessionByUser sid c st)"
  by (erule sock_inv_preserved)
     (auto simp: leaveSessionByUser_sockets leaveSessionByUser_sessions map_keys_map_delete
           map_delete_Nil_iff split: option.splits if_splits)

lemma sock_inv_leaveSessionOnDisconnect:
  "sock_inv st \<Longrightarrow> sock_inv (leaveSessionOnDisconnect c sid st)"
  using sock_inv_leaveSessionByUser [of st sid c]
  by (simp add: sock_inv_def leaveSessionOnDisconnect_sockets leaveSessionOnDisconnect_sessions)

lemma sock_inv_create_session: "sock_inv st \<Longrightarrow> sock_inv (create_session c n i r st)"
  by (erule sock_inv_preserved)
     (auto simp: create_session_def Let_def map_keys_def split: if_splits)

lemma sock_inv_join_session: "sock_inv st \<Longrightarrow> sock_inv (join_session c i n st)"
  by (erule sock_inv_preserved)
     (auto simp: join_session_def Let_def map_keys_map_set split: option.splits if_splits)

lemma sock_inv_keys_kept:
  assumes inv: "sock_inv st" and so: "sockets st' = sockets st"
    and keys: "\<And>sid s. sessions st sid = Some s \<Longrightarrow>
                 \<exists>s'. sessions st' sid = Some s' \<and> map_keys (players s') = map_keys (players s)"
  shows "sock_inv st'"
  using inv
proof (rule sock_inv_preserved)
  fix c sid
  assume "sessionId (sockets st' c) = Some sid"
  with so show "sessionId (sockets st c) = Some sid
                \<or> (\<exists>s. sessions st' sid = Some s \<and> c \<in> set (map_keys (players s)))"
    by simp
next
  fix c sid s
  assume "sessions st sid = Some s" "c \<in> set (map_keys (players s))"
  with keys [of sid s]
  show "\<exists>s'. sessions st' sid = Some s' \<and> c \<in> set (map_keys (players s'))"
    by auto
qed

lemma sock_inv_set_question: "sock_inv st \<Longrightarrow> sock_inv (set_question c q a st)"
  by (erule sock_inv_keys_kept)
     (auto simp: set_question_def Let_def split: option.splits if_splits)

lemma sock_inv_start_game: "sock_inv st \<Longrightarrow> sock_inv (start_game c st)"
proof (erule sock_inv_keys_kept)
  show "sockets (start_game c st) = sockets st" by simp
next
  fix sid s
  assume s: "sessions st sid = Some s"
  show "\<exists>s'. sessions (start_game c st) sid = Some s' \<and> map_keys (players s') = map_keys (players s)"
  proof (cases "\<exists>sid s. sessionId (sockets st c) = Some sid \<and> sid \<noteq> [] \<and> sessions st sid = Some s
              \<and> gm s = c \<and> \<not> inProgress s \<and> 2 \<le> length (players s)
              \<and> truthy (question s) \<and> truthy (answer s)")
    case False
    from start_game_rejected [OF this] s show ?thesis by auto
  next
    case True
    then obtain sid0 s0 where a: "sessionId (sockets st c) = Some sid0" "sid0 \<noteq> []"
      "sessions st sid0 = Some s0" "gm s0 = c" "\<not> inProgress s0" "2 \<le> length (players s0)"
      "truthy (question s0)" "truthy (answer s0)" by blast
    from s a(3) show ?thesis
      by (auto simp: start_game_accepted(1) [OF a])
  qed
qed

lemma sock_inv_guess: "sock_inv st \<Longrightarrow> sock_inv (guess c g st)"
proof (erule sock_inv_keys_kept)
  show "sockets (guess c g st) = sockets st" by simp
next
  fix sid s
  assume s: "sessions st sid = Some s"
  from guess_session_cases [OF s, of c g]
  show "\<exists>s'. sessions (guess c g st) sid = Some s' \<and> map_keys (players s') = map_keys (players s)"
    by (auto simp: use_attempt_def map_keys_map_set_present)
qed

lemma sock_inv_timer_fired: "sock_inv st \<Longrightarrow> sock_inv (timer_fired h st)"
  by (erule sock_inv_keys_kept)
     (auto simp: timer_fired_def endGame_sessions split: option.splits)

lemma sock_inv_step: "sock_inv st \<Longrightarrow> sock_inv (step ev st)"
proof (cases ev)
  case (Leave_session c)
  assume "sock_inv st"
  from sock_inv_leaveSessionByUser [OF this, of "the (sessionId (sockets st c))" c] this Leave_session
  show ?thesis by (simp add: leave_session_def Let_def sock_inv_def)
next
  case (Get_session_state c)
  assume "sock_inv st"
  with Get_session_state show ?thesis by (simp add: sock_inv_def)
qed (simp_all add: sock_inv_create_session sock_inv_join_session sock_inv_set_question
       sock_inv_start_game sock_inv_guess disconnect_def sock_inv_leaveSessionOnDisconnect
       sock_inv_timer_fired)

lemma reachable_sock_inv: "reachable st \<Longrightarrow> sock_inv st"
proof (induction rule: reachable.induct)
  case reachable_init
  show ?case by (simp add: sock_inv_def init_state_def)
next
  case (reachable_step st ev)
  then show ?case by (simp add: sock_inv_step)
qed

lemma leave_session_clears_socket:
  assumes "sock_inv st"
  shows "\<not> truthy (sessionId (sockets (leave_session c st) c))"
proof (cases "truthy (sessionId (sockets st c))")
  case False
  then show ?thesis by (simp add: leave_session_def)
next
  case True
  then obtain sid where sid: "sessionId (sockets st c) = Some sid"
    by (cases "sessionId (sockets st c)") auto
  with assms obtain s where "sessions st sid = Some s" unfolding sock_inv_def by blast
  with True sid show ?thesis
    by (simp add: leave_session_def Let_def leaveSessionByUser_sockets)
qed

subsection \<open>Leaving and disconnecting\<close>

lemma received_by_append [simp]:
  "received_by d (es @ fs) = received_by d es @ received_by d fs"
  by (simp add: received_by_def)

lemma received_by_simps [simp]:
  "received_by d [] = []"
  "received_by d (Emit_socket c m # es) = (if c = d then m # received_by d es else received_by d es)"
  "received_by d (Emit_room r members m # es) =
     (if d \<in> members then m # received_by d es else received_by d es)"
  by (simp_all add: received_by_def)

lemma endGame_received:
  assumes "sessions st' = sessions st" and "rooms st' = rooms st"
    and "received_by d (emitted st') = received_by d (emitted st)"
  shows "received_by d (emitted (endGame sid r w st')) = received_by d (emitted (endGame sid r w st))"
  using assms by (simp add: endGame_def Let_def split: option.splits)

lemma leave_received:
  assumes "d \<noteq> c"
  shows "received_by d (emitted (leaveSessionByUser sid c st)) =
         received_by d (emitted (leaveSessionOnDisconnect c sid st))"
proof (cases "sessions st sid")
  case None
  then show ?thesis by (simp add: leaveSessionByUser_def leaveSessionOnDisconnect_def)
next
  case (Some s)
  show ?thesis
  proof (cases "map_delete c (players s) = []")
    case True
    with Some assms show ?thesis
      by (simp add: leaveSessionByUser_def leaveSessionOnDisconnect_def Let_def
            split: option.splits)
  next
    case ne: False
    show ?thesis
    proof (cases "gm s = c")
      case g: True
      show ?thesis
      proof (cases "inProgress s \<and> length (map_delete c (players s)) < 2")
        case False
        with Some ne g assms show ?thesis
          by (auto simp: leaveSessionByUser_def leaveSessionOnDisconnect_def Let_def)
      next
        case True
        with Some ne g assms show ?thesis
          unfolding leaveSessionByUser_def leaveSessionOnDisconnect_def Let_def
          by (simp, intro endGame_received) simp_all
      qed
    next
      case g: False
      then have g': "c \<noteq> gm s" by blast
      show ?thesis
      proof (cases "inProgress s \<and> length (map_delete c (players s)) < 2")
        case False
        with Some ne g g' assms show ?thesis
          by (auto simp: leaveSessionByUser_def leaveSessionOnDisconnect_def Let_def)
      next
        case True
        with Some ne g g' assms show ?thesis
          unfolding leaveSessionByUser_def leaveSessionOnDisconnect_def Let_def
          by (simp, intro endGame_received) simp_all
      qed
    qed
  qed
qed

subsection \<open>Scores\<close>

lemma map_of_map_set: "map_of (map_set c v ps) k = (if k = c then Some v else map_of ps k)"
  by (induction ps) auto

lemma map_of_map_delete: "map_of (map_delete c ps) k = (if k = c then None else map_of ps k)"
  by (induction ps) (auto simp: map_delete_def)

lemma score_award_points:
  assumes "map_of (players s) k = Some p" "map_of (players (award_points w s)) k = Some p'"
  shows "score p' = score p \<or> score p' = score p + 10"
  using assms by (auto simp: award_points_def map_of_map_set split: option.splits if_splits)

lemma score_end_round:
  assumes "map_of (players s) k = Some p" "map_of (players (end_round w s)) k = Some p'"
  shows "score p' = score p \<or> score p' = score p + 10"
proof -
  let ?s2 = "award_points w (s\<lparr>timer := None, inProgress := False, winner := w\<rparr>)"
  from assms(2) obtain q where q: "map_of (players ?s2) k = Some q" "score p' = score q"
    by (auto simp: end_round_def reset_round_def map_of_map_snd)
  from assms(1) have "map_of (players (s\<lparr>timer := None, inProgress := False, winner := w\<rparr>)) k = Some p"
    by simp
  from score_award_points [OF this q(1)] q(2) show ?thesis by simp
qed

text \<open>One event changes the score of a player who stays in the session in two ways only:
  the award of 10 points, and the reset by a \<open>join_session\<close> of the player itself.\<close>

lemma score_session_change:
  assumes "session_change st sid s s'"
    and "map_of (players s) k = Some p" and "map_of (players s') k = Some p'"
  shows "score p' = score p \<or> score p' = score p + 10
       \<or> (\<not> inProgress s \<and> score p' = 0
           \<and> (\<exists>nm. s' = s\<lparr>players := map_set k \<lparr>player_id = k, name = nm, score = 0, attemptsLeft = 0\<rparr>
                                          (players s)\<rparr>))"
  using assms(1)
proof cases
  case (joined c nm)
  with assms(2,3) show ?thesis by (auto simp: map_of_map_set split: if_splits)
next
  case (left c)
  with assms(2,3) show ?thesis
    by (auto simp: drop_player_def Let_def map_of_map_delete split: if_splits)
next
  case (left_forced_end c)
  with assms(3) obtain q where q: "map_of (players (drop_player c s)) k = Some q"
    "score p' = score q \<or> score p' = score q + 10"
    using score_end_round [of "drop_player c s" k _ None p']
    by (cases "map_of (players (drop_player c s)) k")
       (auto simp: end_round_def reset_round_def award_points_def map_of_map_snd)
  from q(1) assms(2) have "q = p"
    by (auto simp: map_of_map_delete split: if_splits)
  with q(2) left_forced_end show ?thesis
    by (auto simp: end_round_def reset_round_def award_points_def map_of_map_snd)
next
  case (question_set q a a')
  with assms(2,3) show ?thesis by simp
next
  case (started h)
  with assms(2,3) show ?thesis by (auto simp: map_of_map_snd)
next
  case (attempt_used c q)
  with assms(2,3) show ?thesis by (auto simp: use_attempt_def map_of_map_set split: if_splits)
next
  case (won c q)
  let ?s1 = "(use_attempt c q s)\<lparr>winner := Some c\<rparr>"
  from assms(2) won have "\<exists>r. map_of (players ?s1) k = Some r \<and> score r = score p"
    by (cases "k = c") (simp_all add: use_attempt_def map_of_map_set)
  then obtain r where r: "map_of (players ?s1) k = Some r" "score r = score p"
    by blast
  from score_end_round [OF r(1), of "Some c" p'] assms(3) won r(2) show ?thesis by auto
next
  case (timed_out h)
  with score_end_round [OF assms(2), of None p'] assms(3) show ?thesis by auto
qed

lemma score_step:
  assumes "sessions st sid = Some s" and "sessions (step ev st) sid = Some s'"
    and "map_of (players s) k = Some p" and "map_of (players s') k = Some p'"
  shows "score p' = score p \<or> score p' = score p + 10
       \<or> (\<not> inProgress s \<and> score p' = 0
           \<and> (\<exists>nm. s' = s\<lparr>players := map_set k \<lparr>player_id = k, name = nm, score = 0, attemptsLeft = 0\<rparr>
                                          (players s)\<rparr>))"
proof -
  from step_session_change [OF assms(1,2)]
  show ?thesis
  proof
    assume "s' = s"
    with assms(3,4) show ?thesis by simp
  next
    assume "session_change st sid s s'"
    from score_session_change [OF this assms(3,4)] show ?thesis .
  qed
qed

section \<open>The claims\<close>

lemma reachable_run: "reachable st \<Longrightarrow> reachable (run evs st)"
  by (induction evs arbitrary: st) (auto intro: reachable_step)

subsection \<open>C1: a single winner\<close>

text \<open>
  C1 (as the code has it). (a) The first accepted correct guess of a round that has no
  winner yet makes the guesser the winner, ends the round and awards the 10 points.
  (b) In every reachable state a session that records a winner is idle, so a guess that
  is evaluated after the winner is set, correct or not, leaves the session as it is: it
  takes no attempt, and there is no second winner, no second award and no second round
  end; the guesser, when the session is the one the socket is in, is only told ``No
  active game in this session.''. (c) In every reachable state the recorded winner is
  not changed by any event that does not start or end a round of the session.
\<close>

theorem single_winner:
  "(sessionId (sockets st c) = Some sid \<and> sid \<noteq> [] \<and> c \<noteq> [] \<and> sessions st sid = Some s
      \<and> inProgress s \<and> map_of (players s) c = Some p \<and> 0 < attemptsLeft p
      \<and> trim (js_or g []) \<noteq> [] \<and> Some (trim (toLowerCase (trim (js_or g [])))) = answer s
      \<and> \<not> truthy (winner s) \<longrightarrow>
      (\<exists>s'. sessions (guess c g st) sid = Some s' \<and> winner s' = Some c \<and> \<not> inProgress s'
           \<and> map_option score (map_of (players s') c) = Some (score p + 10)))
   \<and> (reachable st \<and> sessions st sid = Some s \<and> truthy (winner s) \<longrightarrow>
        \<not> inProgress s
        \<and> sessions (guess c g st) sid = Some s
        \<and> (sessionId (sockets st c) = Some sid \<and> sid \<noteq> [] \<longrightarrow>
             guess c g st = emit_socket c (Error_message ''No active game in this session.'') st))
   \<and> (reachable st \<and> sessions st sid = Some s \<and> truthy (winner s)
        \<and> sessions (step ev st) sid = Some s' \<and> inProgress s' = inProgress s \<longrightarrow>
        winner s' = winner s)"
proof (intro conjI impI)
  assume a: "sessionId (sockets st c) = Some sid \<and> sid \<noteq> [] \<and> c \<noteq> [] \<and> sessions st sid = Some s
      \<and> inProgress s \<and> map_of (players s) c = Some p \<and> 0 < attemptsLeft p
      \<and> trim (js_or g []) \<noteq> [] \<and> Some (trim (toLowerCase (trim (js_or g [])))) = answer s
      \<and> \<not> truthy (winner s)"
  then have acc: "sessionId (sockets st c) = Some sid" "sid \<noteq> []" "sessions st sid = Some s"
    "inProgress s" "map_of (players s) c = Some p" "0 < attemptsLeft p"
    "trim (js_or g []) \<noteq> []" by simp_all
  let ?s' = "end_round (Some c) ((use_attempt c p s)\<lparr>winner := Some c\<rparr>)"
  from a have "sessions (guess c g st) sid = Some ?s'"
    by (simp add: guess_accepted [OF acc] Let_def endGame_sessions del: truthy.simps)
  moreover from a
  have "map_option score (map_of (players ?s') c) = Some (score p + 10)"
    by (simp add: end_round_def reset_round_def award_points_def use_attempt_def
          map_of_map_snd)
  ultimately show "\<exists>s'. sessions (guess c g st) sid = Some s' \<and> winner s' = Some c
      \<and> \<not> inProgress s' \<and> map_option score (map_of (players s') c) = Some (score p + 10)"
    by simp
next
  assume a: "reachable st \<and> sessions st sid = Some s \<and> truthy (winner s)"
  with reachable_no_winner_in_progress [of st sid s]
  show idle: "\<not> inProgress s" by auto
  from a have s: "sessions st sid = Some s" by simp
  from guess_session_cases [OF s, of c g] idle
  show "sessions (guess c g st) sid = Some s" by auto
  show "guess c g st = emit_socket c (Error_message ''No active game in this session.'') st"
    if "sessionId (sockets st c) = Some sid \<and> sid \<noteq> []"
    using that s idle by (simp add: guess_def)
next
  assume a: "reachable st \<and> sessions st sid = Some s \<and> truthy (winner s)
        \<and> sessions (step ev st) sid = Some s' \<and> inProgress s' = inProgress s"
  then have inv: "timer_inv st" by (simp add: reachable_timer_inv)
  from a step_session_change [of st sid s ev s']
  have "s' = s \<or> session_change st sid s s'" by simp
  with a inv show "winner s' = winner s"
    by (auto dest: winner_session_change)
qed

theorem single_winner_witness:
  "(let st = run round_events init_state; st' = guess ''c3'' (Some '' Paris '') st
    in sessionId (sockets st ''c3'') = Some ''r'' \<and> sessions st ''r'' \<noteq> None
       \<and> inProgress (the (sessions st ''r''))
       \<and> map_option attemptsLeft (map_of (players (the (sessions st ''r''))) ''c3'') = Some 3
       \<and> Some (trim (toLowerCase (trim (js_or (Some '' Paris '') []))))
           = answer (the (sessions st ''r''))
       \<and> \<not> truthy (winner (the (sessions st ''r'')))
       \<and> (\<exists>s'. sessions st' ''r'' = Some s' \<and> winner s' = Some ''c3'' \<and> \<not> inProgress s'
              \<and> map_option score (map_of (players s') ''c3'') = Some 10))
   \<and> (let st = run won_events init_state
      in reachable st \<and> sessions st ''r'' \<noteq> None \<and> truthy (winner (the (sessions st ''r'')))
         \<and> sessionId (sockets st ''c2'') = Some ''r''
         \<and> \<not> inProgress (the (sessions st ''r''))
         \<and> sessions (guess ''c2'' (Some ''paris'') st) ''r'' = sessions st ''r''
         \<and> guess ''c2'' (Some ''paris'') st =
             emit_socket ''c2'' (Error_message ''No active game in this session.'') st)
   \<and> (let st = run won_events init_state; st' = step (Leave_session ''c1'') st
      in reachable st \<and> sessions st ''r'' \<noteq> None \<and> truthy (winner (the (sessions st ''r'')))
         \<and> sessions st' ''r'' \<noteq> None
         \<and> inProgress (the (sessions st' ''r'')) = inProgress (the (sessions st ''r''))
         \<and> winner (the (sessions st' ''r'')) = winner (the (sessions st ''r''))
         \<and> winner (the (sessions st ''r'')) = Some ''c3'')"
proof -
  let ?st1 = "run round_events init_state"
  have h1: "sessionId (sockets ?st1 ''c3'') = Some ''r''" "sessions ?st1 ''r'' \<noteq> None"
    "inProgress (the (sessions ?st1 ''r''))"
    "map_of (players (the (sessions ?st1 ''r''))) ''c3'' \<noteq> None"
    "attemptsLeft (the (map_of (players (the (sessions ?st1 ''r''))) ''c3'')) = 3"
    "score (the (map_of (players (the (sessions ?st1 ''r''))) ''c3'')) = 0"
    "trim (js_or (Some '' Paris '') []) \<noteq> []"
    "Some (trim (toLowerCase (trim (js_or (Some '' Paris '') []))))
       = answer (the (sessions ?st1 ''r''))"
    "\<not> truthy (winner (the (sessions ?st1 ''r'')))"
    by code_simp+
  from h1 have
    "\<exists>s'. sessions (guess ''c3'' (Some '' Paris '') ?st1) ''r'' = Some s' \<and> winner s' = Some ''c3''
        \<and> \<not> inProgress s' \<and> map_option score (map_of (players s') ''c3'') = Some 10"
    using single_winner [where st = ?st1 and c = "''c3''" and sid = "''r''"
        and s = "the (sessions ?st1 ''r'')"
        and p = "the (map_of (players (the (sessions ?st1 ''r''))) ''c3'')"
        and g = "Some '' Paris ''", THEN conjunct1]
    by auto
  with h1 have 1: "sessionId (sockets ?st1 ''c3'') = Some ''r'' \<and> sessions ?st1 ''r'' \<noteq> None
       \<and> inProgress (the (sessions ?st1 ''r''))
       \<and> map_option attemptsLeft (map_of (players (the (sessions ?st1 ''r''))) ''c3'') = Some 3
       \<and> Some (trim (toLowerCase (trim (js_or (Some '' Paris '') []))))
           = answer (the (sessions ?st1 ''r''))
       \<and> \<not> truthy (winner (the (sessions ?st1 ''r'')))
       \<and> (\<exists>s'. sessions (guess ''c3'' (Some '' Paris '') ?st1) ''r'' = Some s'
              \<and> winner s' = Some ''c3'' \<and> \<not> inProgress s'
              \<and> map_option score (map_of (players s') ''c3'') = Some 10)"
    by auto
  let ?st3 = "run won_events init_state"
  have r3: "reachable ?st3" by (rule reachable_run) (rule reachable_init)
  have h3: "sessions ?st3 ''r'' \<noteq> None" "truthy (winner (the (sessions ?st3 ''r'')))"
    "sessions (step (Leave_session ''c1'') ?st3) ''r'' \<noteq> None"
    "inProgress (the (sessions (step (Leave_session ''c1'') ?st3) ''r''))
       = inProgress (the (sessions ?st3 ''r''))"
    "winner (the (sessions ?st3 ''r'')) = Some ''c3''"
    by code_simp+
  have k: "sessionId (sockets ?st3 ''c2'') = Some ''r''" "''r'' \<noteq> []"
    by code_simp+
  from h3(1) have s3: "sessions ?st3 ''r'' = Some (the (sessions ?st3 ''r''))" by simp
  note late = single_winner [where st = ?st3 and sid = "''r''" and s = "the (sessions ?st3 ''r'')"
        and c = "''c2''" and g = "Some ''paris''", THEN conjunct2, THEN conjunct1, rule_format,
        OF conjI [OF r3 conjI [OF s3 h3(2)]]]
  from late have l1: "\<not> inProgress (the (sessions ?st3 ''r''))" by (rule conjunct1)
  from late s3 have l2: "sessions (guess ''c2'' (Some ''paris'') ?st3) ''r'' = sessions ?st3 ''r''"
    by simp
  from late k have l3: "guess ''c2'' (Some ''paris'') ?st3 =
      emit_socket ''c2'' (Error_message ''No active game in this session.'') ?st3"
    by blast
  have 2: "reachable ?st3 \<and> sessions ?st3 ''r'' \<noteq> None
         \<and> truthy (winner (the (sessions ?st3 ''r'')))
         \<and> sessionId (sockets ?st3 ''c2'') = Some ''r''
         \<and> \<not> inProgress (the (sessions ?st3 ''r''))
         \<and> sessions (guess ''c2'' (Some ''paris'') ?st3) ''r'' = sessions ?st3 ''r''
         \<and> guess ''c2'' (Some ''paris'') ?st3 =
             emit_socket ''c2'' (Error_message ''No active game in this session.'') ?st3"
    by (intro conjI; fact r3 h3 k l1 l2 l3)
  from r3 h3 have "winner (the (sessions (step (Leave_session ''c1'') ?st3) ''r''))
      = winner (the (sessions ?st3 ''r''))"
    using single_winner [where st = ?st3 and sid = "''r''" and s = "the (sessions ?st3 ''r'')"
        and ev = "Leave_session ''c1''"
        and s' = "the (sessions (step (Leave_session ''c1'') ?st3) ''r'')",
        THEN conjunct2, THEN conjunct2]
    by auto
  with r3 h3 have 3: "reachable ?st3 \<and> sessions ?st3 ''r'' \<noteq> None
         \<and> truthy (winner (the (sessions ?st3 ''r'')))
         \<and> sessions (step (Leave_session ''c1'') ?st3) ''r'' \<noteq> None
         \<and> inProgress (the (sessions (step (Leave_session ''c1'') ?st3) ''r''))
             = inProgress (the (sessions ?st3 ''r''))
         \<and> winner (the (sessions (step (Leave_session ''c1'') ?st3) ''r''))
             = winner (the (sessions ?st3 ''r''))
         \<and> winner (the (sessions ?st3 ''r'')) = Some ''c3''"
    by blast
  show ?thesis unfolding Let_def by (rule conjI [OF 1 conjI [OF 2 3]])
qed

text \<open>
  The claim as it was stated fails. Cy has won the round of \<open>r\<close> with the answer
  \<open>paris\<close>, so the winner is set. Bob's guess \<open>paris\<close>, which was correct for that round,
  is evaluated next: it is answered with ``No active game in this session.'' and
  nothing else happens, so it does not consume an attempt.
\<close>

theorem late_correct_guess_counterexample:
  "(let st0 = run round_events init_state; st = run won_events init_state
    in answer (the (sessions st0 ''r''))
         = Some (trim (toLowerCase (trim (js_or (Some ''paris'') []))))
       \<and> map_option attemptsLeft (map_of (players (the (sessions st0 ''r''))) ''c2'') = Some 3
       \<and> map_option winner (sessions st ''r'') = Some (Some ''c3'')
       \<and> guess ''c2'' (Some ''paris'') st =
           emit_socket ''c2'' (Error_message ''No active game in this session.'') st)"
proof -
  let ?before = "run round_events init_state"
  let ?after = "run won_events init_state"
  have h: "answer (the (sessions ?before ''r''))
             = Some (trim (toLowerCase (trim (js_or (Some ''paris'') []))))"
    "map_option attemptsLeft (map_of (players (the (sessions ?before ''r''))) ''c2'') = Some 3"
    "map_option winner (sessions ?after ''r'') = Some (Some ''c3'')"
    "sessionId (sockets ?after ''c2'') = Some ''r''"
    "map_option inProgress (sessions ?after ''r'') = Some False"
    by code_simp+
  from h(5) obtain s where s: "sessions ?after ''r'' = Some s" "\<not> inProgress s" by auto
  with h(4) have g: "guess ''c2'' (Some ''paris'') ?after =
      emit_socket ''c2'' (Error_message ''No active game in this session.'') ?after"
    by (simp add: guess_def)
  show ?thesis unfolding Let_def by (intro conjI; fact h g)
qed

subsection \<open>C2: the Game Master is always a player\<close>

text \<open>
  C2. In every reachable state every live session has a Game Master who is one of the
  keys of its \<open>players\<close> map (so the map is not empty either), and the same holds again
  after any further event: create, join, leave, disconnect, set_question, start, guess,
  the timer callback.
\<close>

theorem gm_is_member:
  assumes "reachable st"
  shows "(\<forall>sid s. sessions st sid = Some s \<longrightarrow> gm s \<in> set (map_keys (players s)))
       \<and> (\<forall>ev sid s. sessions (step ev st) sid = Some s \<longrightarrow> gm s \<in> set (map_keys (players s)))"
proof -
  from assms have "gm_inv st" by (rule reachable_gm_inv)
  moreover from this have "gm_inv (step ev st)" for ev by (rule gm_inv_step)
  ultimately show ?thesis by (auto simp: gm_inv_def gm_ok_def)
qed

theorem gm_is_member_witness:
  "reachable (run round_events init_state)
   \<and> (\<exists>s. sessions (run round_events init_state) ''r'' = Some s
          \<and> gm s \<in> set (map_keys (players s)))
   \<and> (\<exists>s. sessions (step (Disconnect ''c1'') (run round_events init_state)) ''r'' = Some s
          \<and> gm s \<in> set (map_keys (players s)))"
proof -
  have r: "reachable (run round_events init_state)"
    by (rule reachable_run) (rule reachable_init)
  have a: "sessions (run round_events init_state) ''r'' \<noteq> None"
    by code_simp
  have b: "sessions (step (Disconnect ''c1'') (run round_events init_state)) ''r'' \<noteq> None"
    by code_simp
  from a obtain s where s: "sessions (run round_events init_state) ''r'' = Some s"
    by blast
  from b obtain s' where s':
    "sessions (step (Disconnect ''c1'') (run round_events init_state)) ''r'' = Some s'"
    by blast
  from gm_is_member [OF r] s s' have "gm s \<in> set (map_keys (players s))"
    and "gm s' \<in> set (map_keys (players s'))"
    by blast+
  with r s s' show ?thesis by blast
qed

subsection \<open>C3: attempt accounting\<close>

text \<open>
  C3. Let a player of a session with a round in progress submit a guess, in a reachable
  state. If the player's \<open>attemptsLeft\<close> is 0, the only effect is the error message
  ``No attempts left.'' to that player: nothing is decremented. Otherwise, if the
  trimmed text is not empty, the attempt is counted first: the narration and the
  \<open>session_state\<close> broadcast that follow already show the player with one attempt
  less, whether or not the guess is right, and when the guess is wrong (or a winner is
  already recorded) the session ends up exactly with that one attempt less.
\<close>

theorem attempt_accounting:
  assumes "reachable st" and "sessionId (sockets st c) = Some sid" and "sid \<noteq> []"
    and "sessions st sid = Some s" and "inProgress s" and "map_of (players s) c = Some p"
  shows "(attemptsLeft p = 0 \<longrightarrow>
            guess c g st = emit_socket c (Error_message ''No attempts left.'') st)
       \<and> (attemptsLeft p \<noteq> 0 \<and> trim (js_or g []) \<noteq> [] \<longrightarrow>
            (\<exists>rest. emitted (guess c g st) =
               emitted st @
               [Emit_room sid (rooms st sid)
                  (System_message
                     (guess_narration (name p) (trim (js_or g [])) (attemptsLeft p - 1))),
                Emit_room (sess_id s) (rooms st (sess_id s))
                  (session_view
                     (s\<lparr>players := map_set c (p\<lparr>attemptsLeft := attemptsLeft p - 1\<rparr>) (players s)\<rparr>))]
               @ rest)
            \<and> (Some (trim (toLowerCase (trim (js_or g [])))) \<noteq> answer s \<or> truthy (winner s) \<longrightarrow>
                 sessions (guess c g st) =
                   (sessions st)(sid \<mapsto>
                      s\<lparr>players := map_set c (p\<lparr>attemptsLeft := attemptsLeft p - 1\<rparr>) (players s)\<rparr>)))"
proof (intro conjI impI)
  assume "attemptsLeft p = 0"
  with assms show "guess c g st = emit_socket c (Error_message ''No attempts left.'') st"
    by (simp add: guess_def)
next
  assume a: "attemptsLeft p \<noteq> 0 \<and> trim (js_or g []) \<noteq> []"
  from reachable_attempts_nonneg [OF assms(1,4,6)] a have pos: "0 < attemptsLeft p" by simp
  note eq = guess_accepted [OF assms(2-6) pos conjunct2 [OF a]]
  show "\<exists>rest. emitted (guess c g st) =
               emitted st @
               [Emit_room sid (rooms st sid)
                  (System_message
                     (guess_narration (name p) (trim (js_or g [])) (attemptsLeft p - 1))),
                Emit_room (sess_id s) (rooms st (sess_id s))
                  (session_view
                     (s\<lparr>players := map_set c (p\<lparr>attemptsLeft := attemptsLeft p - 1\<rparr>) (players s)\<rparr>))]
               @ rest"
    unfolding eq Let_def
    by (simp add: use_attempt_def endGame_def Let_def split: option.splits del: truthy.simps)
next
  assume a: "attemptsLeft p \<noteq> 0 \<and> trim (js_or g []) \<noteq> []"
    and b: "Some (trim (toLowerCase (trim (js_or g [])))) \<noteq> answer s \<or> truthy (winner s)"
  from reachable_attempts_nonneg [OF assms(1,4,6)] a have pos: "0 < attemptsLeft p" by simp
  note eq = guess_accepted [OF assms(2-6) pos conjunct2 [OF a]]
  from b show "sessions (guess c g st) =
                   (sessions st)(sid \<mapsto>
                      s\<lparr>players := map_set c (p\<lparr>attemptsLeft := attemptsLeft p - 1\<rparr>) (players s)\<rparr>)"
    unfolding eq Let_def
    by (auto simp: use_attempt_def simp del: truthy.simps)
qed

theorem attempt_accounting_witness:
  "(let st = run exhausted_events init_state
    in reachable st \<and> sessionId (sockets st ''c2'') = Some ''r'' \<and> sessions st ''r'' \<noteq> None
       \<and> inProgress (the (sessions st ''r''))
       \<and> map_option attemptsLeft (map_of (players (the (sessions st ''r''))) ''c2'') = Some 0
       \<and> guess ''c2'' (Some ''Paris'') st
           = emit_socket ''c2'' (Error_message ''No attempts left.'') st
       \<and> sessionId (sockets st ''c3'') = Some ''r''
       \<and> map_option attemptsLeft (map_of (players (the (sessions st ''r''))) ''c3'') = Some 3
       \<and> trim (js_or (Some '' Lyon '') []) \<noteq> []
       \<and> Some (trim (toLowerCase (trim (js_or (Some '' Lyon '') []))))
            \<noteq> answer (the (sessions st ''r''))
       \<and> map_option attemptsLeft
           (map_of (players (the (sessions (guess ''c3'' (Some '' Lyon '') st) ''r''))) ''c3'')
          = Some 2)"
proof -
  let ?st = "run exhausted_events init_state"
  let ?s = "the (sessions ?st ''r'')"
  let ?p2 = "the (map_of (players ?s) ''c2'')"
  let ?p3 = "the (map_of (players ?s) ''c3'')"
  have r: "reachable ?st" by (rule reachable_run) (rule reachable_init)
  have h: "sessionId (sockets ?st ''c2'') = Some ''r''" "sessions ?st ''r'' \<noteq> None"
    "inProgress ?s" "map_of (players ?s) ''c2'' \<noteq> None" "attemptsLeft ?p2 = 0"
    "sessionId (sockets ?st ''c3'') = Some ''r''" "map_of (players ?s) ''c3'' \<noteq> None"
    "attemptsLeft ?p3 = 3" "trim (js_or (Some '' Lyon '') []) \<noteq> []"
    "Some (trim (toLowerCase (trim (js_or (Some '' Lyon '') [])))) \<noteq> answer ?s"
    by code_simp+
  from h have s: "sessions ?st ''r'' = Some ?s" and p2: "map_of (players ?s) ''c2'' = Some ?p2"
    and p3: "map_of (players ?s) ''c3'' = Some ?p3"
    by simp_all
  have ne: "''r'' \<noteq> []" by simp
  from attempt_accounting [OF r h(1) ne s h(3) p2, of "Some ''Paris''"] h(5)
  have a: "guess ''c2'' (Some ''Paris'') ?st
             = emit_socket ''c2'' (Error_message ''No attempts left.'') ?st"
    by simp
  from attempt_accounting [OF r h(6) ne s h(3) p3, of "Some '' Lyon ''"] h(8,9,10)
  have "sessions (guess ''c3'' (Some '' Lyon '') ?st) =
          (sessions ?st)(''r'' \<mapsto>
             ?s\<lparr>players := map_set ''c3'' (?p3\<lparr>attemptsLeft := attemptsLeft ?p3 - 1\<rparr>) (players ?s)\<rparr>)"
    by simp
  then have b: "map_option attemptsLeft
           (map_of (players (the (sessions (guess ''c3'' (Some '' Lyon '') ?st) ''r''))) ''c3'')
          = Some 2"
    using h(8) by simp
  have c2: "map_option attemptsLeft (map_of (players ?s) ''c2'') = Some 0"
    and c3: "map_option attemptsLeft (map_of (players ?s) ''c3'') = Some 3"
    by code_simp+
  show ?thesis
    unfolding Let_def by (intro conjI; fact r h a b c2 c3)
qed

subsection \<open>C4: rotation of the Game Master at round end\<close>

text \<open>
  C4. Whenever an event ends the round of a session (the session is in progress before
  the event and idle after it: a correct guess, the timeout, or a departure that leaves
  fewer than two players), the new Game Master is the player who follows the outgoing
  Game Master in the join order of the players now in the session; this is the first
  player when the outgoing Game Master is the last one in that order or is no longer in
  the session.
\<close>

theorem gm_rotation_at_round_end:
  assumes "sessions st sid = Some s" and "inProgress s"
    and "sessions (step ev st) sid = Some s'" and "\<not> inProgress s'" and "players s' \<noteq> []"
  shows "gm s' = next_in_join_order (map_keys (players s')) (gm s)"
proof -
  from step_session_change [OF assms(1,3)] assms(2,4)
  have "session_change st sid s s'" by auto
  then show ?thesis
  proof cases
    case (joined c nm)
    with assms(2) show ?thesis by simp
  next
    case (left c)
    with assms(2,4) show ?thesis by simp
  next
    case (left_forced_end c)
    then obtain x where x: "map_keys (map_delete c (players s)) = [x]"
      by (cases "map_delete c (players s)") (auto simp: map_keys_def)
    from left_forced_end have "gm_ok s'" by (simp add: gm_ok_end_round)
    with left_forced_end x have "gm s' = x" by (simp add: gm_ok_def)
    with left_forced_end x show ?thesis by simp
  next
    case (question_set q a a')
    with assms(2) show ?thesis by simp
  next
    case (started h)
    with assms(2) show ?thesis by simp
  next
    case (attempt_used c p)
    with assms(2,4) show ?thesis by (simp add: use_attempt_def)
  next
    case (won c p)
    then show ?thesis
      by (simp add: gm_end_round use_attempt_def map_keys_map_set_present)
  next
    case (timed_out h)
    with assms(5) have "map_keys (players (end_round None s)) \<noteq> []"
      by (simp add: map_keys_def)
    then have "players s \<noteq> []"
      unfolding end_round_keys by (simp add: map_keys_def)
    with timed_out show ?thesis by (simp add: gm_end_round)
  qed
qed

theorem gm_rotation_at_round_end_witness:
  "(let st = run round_events init_state; st' = step (Timer_fired 0) st
    in sessions st ''r'' \<noteq> None \<and> inProgress (the (sessions st ''r''))
       \<and> sessions st' ''r'' \<noteq> None \<and> \<not> inProgress (the (sessions st' ''r''))
       \<and> players (the (sessions st' ''r'')) \<noteq> []
       \<and> gm (the (sessions st ''r'')) = ''c1'' \<and> gm (the (sessions st' ''r'')) = ''c2''
       \<and> gm (the (sessions st' ''r'')) =
           next_in_join_order (map_keys (players (the (sessions st' ''r''))))
             (gm (the (sessions st ''r''))))
   \<and> (let st = run third_round_events init_state; st' = step (Guess ''c1'' (Some ''jupiter'')) st
      in sessions st ''r'' \<noteq> None \<and> inProgress (the (sessions st ''r''))
         \<and> sessions st' ''r'' \<noteq> None \<and> \<not> inProgress (the (sessions st' ''r''))
         \<and> players (the (sessions st' ''r'')) \<noteq> []
         \<and> gm (the (sessions st ''r'')) = ''c3'' \<and> gm (the (sessions st' ''r'')) = ''c1''
         \<and> gm (the (sessions st' ''r'')) =
             next_in_join_order (map_keys (players (the (sessions st' ''r''))))
               (gm (the (sessions st ''r''))))
   \<and> (let st = run duel_events init_state; st' = step (Leave_session ''c1'') st
      in sessions st ''r'' \<noteq> None \<and> inProgress (the (sessions st ''r''))
         \<and> sessions st' ''r'' \<noteq> None \<and> \<not> inProgress (the (sessions st' ''r''))
         \<and> players (the (sessions st' ''r'')) \<noteq> []
         \<and> gm (the (sessions st ''r'')) = ''c1'' \<and> gm (the (sessions st' ''r'')) = ''c3''
         \<and> gm (the (sessions st' ''r'')) =
             next_in_join_order (map_keys (players (the (sessions st' ''r''))))
               (gm (the (sessions st ''r''))))"
proof -
  have rot: "sessions st ''r'' \<noteq> None \<and> inProgress (the (sessions st ''r''))
       \<and> sessions st' ''r'' \<noteq> None \<and> \<not> inProgress (the (sessions st' ''r''))
       \<and> players (the (sessions st' ''r'')) \<noteq> []
       \<and> gm (the (sessions st ''r'')) = g \<and> gm (the (sessions st' ''r'')) = g'
       \<and> gm (the (sessions st' ''r'')) =
           next_in_join_order (map_keys (players (the (sessions st' ''r''))))
             (gm (the (sessions st ''r'')))"
    if "st' = step ev st"
      and "sessions st ''r'' \<noteq> None" and "inProgress (the (sessions st ''r''))"
      and "sessions (step ev st) ''r'' \<noteq> None"
      and "\<not> inProgress (the (sessions (step ev st) ''r''))"
      and "players (the (sessions (step ev st) ''r'')) \<noteq> []"
      and "gm (the (sessions st ''r'')) = g" and "gm (the (sessions (step ev st) ''r'')) = g'"
    for st st' ev g g'
  proof -
    from that(2) have a: "sessions st ''r'' = Some (the (sessions st ''r''))" by simp
    from that(4) have b: "sessions (step ev st) ''r'' = Some (the (sessions (step ev st) ''r''))"
      by simp
    from gm_rotation_at_round_end [OF a that(3) b that(5) that(6)] that show ?thesis
      by simp
  qed
  have 1: "sessions (run round_events init_state) ''r'' \<noteq> None"
    "inProgress (the (sessions (run round_events init_state) ''r''))"
    "sessions (step (Timer_fired 0) (run round_events init_state)) ''r'' \<noteq> None"
    "\<not> inProgress (the (sessions (step (Timer_fired 0) (run round_events init_state)) ''r''))"
    "players (the (sessions (step (Timer_fired 0) (run round_events init_state)) ''r'')) \<noteq> []"
    "gm (the (sessions (run round_events init_state) ''r'')) = ''c1''"
    "gm (the (sessions (step (Timer_fired 0) (run round_events init_state)) ''r'')) = ''c2''"
    by code_simp+
  have 2: "sessions (run third_round_events init_state) ''r'' \<noteq> None"
    "inProgress (the (sessions (run third_round_events init_state) ''r''))"
    "sessions (step (Guess ''c1'' (Some ''jupiter'')) (run third_round_events init_state)) ''r'' \<noteq> None"
    "\<not> inProgress (the (sessions (step (Guess ''c1'' (Some ''jupiter'')) (run third_round_events init_state)) ''r''))"
    "players (the (sessions (step (Guess ''c1'' (Some ''jupiter'')) (run third_round_events init_state)) ''r'')) \<noteq> []"
    "gm (the (sessions (run third_round_events init_state) ''r'')) = ''c3''"
    "gm (the (sessions (step (Guess ''c1'' (Some ''jupiter'')) (run third_round_events init_state)) ''r'')) = ''c1''"
    by code_simp+
  have 3: "sessions (run duel_events init_state) ''r'' \<noteq> None"
    "inProgress (the (sessions (run duel_events init_state) ''r''))"
    "sessions (step (Leave_session ''c1'') (run duel_events init_state)) ''r'' \<noteq> None"
    "\<not> inProgress (the (sessions (step (Leave_session ''c1'') (run duel_events init_state)) ''r''))"
    "players (the (sessions (step (Leave_session ''c1'') (run duel_events init_state)) ''r'')) \<noteq> []"
    "gm (the (sessions (run duel_events init_state) ''r'')) = ''c1''"
    "gm (the (sessions (step (Leave_session ''c1'') (run duel_events init_state)) ''r'')) = ''c3''"
    by code_simp+
  show ?thesis
    unfolding Let_def
    by (rule conjI [OF rot [OF refl 1] conjI [OF rot [OF refl 2] rot [OF refl 3]]])
qed

subsection \<open>C5: explicit leave and disconnection\<close>

text \<open>
  C5 (as the code has it). A \<open>leave_session\<close> and a disconnection of the same connection
  run two separate removal functions. From any state they end with the same sessions
  (removal, deletion of an emptied session, new Game Master, forced round end), the
  same pending timers and the same socket fields, and every other connection receives
  the same messages in the same order.
\<close>

theorem leave_disconnect_equivalence:
  "sessions (leave_session c st) = sessions (disconnect c st)
   \<and> timers (leave_session c st) = timers (disconnect c st)
   \<and> next_timer (leave_session c st) = next_timer (disconnect c st)
   \<and> sockets (leave_session c st) = sockets (disconnect c st)
   \<and> (\<forall>d. d \<noteq> c \<longrightarrow>
         received_by d (emitted (leave_session c st)) = received_by d (emitted (disconnect c st)))"
  by (simp add: leave_session_def disconnect_def Let_def leaveSessionOnDisconnect_sessions
        leaveSessionOnDisconnect_timers leaveSessionOnDisconnect_sockets leave_received)

theorem leave_disconnect_equivalence_witness:
  "''c2'' \<noteq> ''c1''
   \<and> sessionId (sockets (run round_events init_state) ''c1'') = Some ''r''
   \<and> received_by ''c2'' (emitted (leave_session ''c1'' (run round_events init_state)))
       = received_by ''c2'' (emitted (disconnect ''c1'' (run round_events init_state)))
   \<and> sessions (leave_session ''c1'' (run round_events init_state))
       = sessions (disconnect ''c1'' (run round_events init_state))"
proof -
  have a: "sessionId (sockets (run round_events init_state) ''c1'') = Some ''r''"
    by code_simp
  from a leave_disconnect_equivalence [of "''c1''" "run round_events init_state"]
  show ?thesis by simp
qed

text \<open>
  The claim as it was stated fails. When Bob leaves the lobby of \<open>r\<close>, the departure
  notice is sent while he is still in the room and he is then told \<open>left_session\<close>; when
  his connection drops instead, he is removed before the notice is sent and no
  \<open>left_session\<close> follows.
\<close>

theorem leave_disconnect_counterexample:
  "(let st = run lobby_events init_state
    in drop (length (emitted st)) (emitted (step (Leave_session ''c2'') st)) =
         [Emit_room ''r'' {''c1'', ''c2'', ''c3''} (System_message ''Bob left the session.''),
          Emit_room ''r'' {''c1'', ''c3''}
            (Session_state ''r''
               [Player_view ''c1'' ''Ann'' 0 0 True, Player_view ''c3'' ''Cy'' 0 0 False]
               ''c1'' False None None),
          Emit_socket ''c2'' (Left_session ''r'')]
       \<and> drop (length (emitted st)) (emitted (step (Disconnect ''c2'') st)) =
         [Emit_room ''r'' {''c1'', ''c3''} (System_message ''Bob left the session.''),
          Emit_room ''r'' {''c1'', ''c3''}
            (Session_state ''r''
               [Player_view ''c1'' ''Ann'' 0 0 True, Player_view ''c3'' ''Cy'' 0 0 False]
               ''c1'' False None None)])"
  by code_simp

subsection \<open>C6: departing twice\<close>

text \<open>
  C6 (as the code has it). In every reachable state, after a \<open>leave_session\<close> of a
  connection a second \<open>leave_session\<close> of the same connection changes no session, timer,
  room or socket field, but it is answered with the error message ``You are not
  currently in a session.''; a disconnect after the explicit leave changes nothing at
  all and sends nothing.
\<close>

theorem departure_twice:
  assumes "reachable st"
  shows "leave_session c (leave_session c st) =
           emit_socket c (Error_message ''You are not currently in a session.'')
             (leave_session c st)
       \<and> disconnect c (leave_session c st) = leave_session c st"
proof -
  from assms have "sock_inv st" by (rule reachable_sock_inv)
  then have "\<not> truthy (sessionId (sockets (leave_session c st) c))"
    by (rule leave_session_clears_socket)
  then show ?thesis
    by (simp add: leave_session_def [of c "leave_session c st"] disconnect_def)
qed

theorem departure_twice_witness:
  "reachable (run lobby_events init_state)
   \<and> leave_session ''c2'' (leave_session ''c2'' (run lobby_events init_state)) =
       emit_socket ''c2'' (Error_message ''You are not currently in a session.'')
         (leave_session ''c2'' (run lobby_events init_state))
   \<and> disconnect ''c2'' (leave_session ''c2'' (run lobby_events init_state)) =
       leave_session ''c2'' (run lobby_events init_state)"
proof -
  have r: "reachable (run lobby_events init_state)"
    by (rule reachable_run) (rule reachable_init)
  from r departure_twice [OF r, of "''c2''"] show ?thesis by simp
qed

text \<open>
  The claim as it was stated fails for leave after leave: the second \<open>leave_session\<close> of
  Bob is answered with an error message.
\<close>

theorem second_leave_error_counterexample:
  "emitted (run (lobby_events @ [Leave_session ''c2'', Leave_session ''c2'']) init_state) =
     emitted (run (lobby_events @ [Leave_session ''c2'']) init_state)
     @ [Emit_socket ''c2'' (Error_message ''You are not currently in a session.'')]"
  by code_simp

subsection \<open>C7: no stale timer\<close>

text \<open>
  C7. In every reachable state a pending round-expiry timer belongs to a live session
  whose round is in progress and whose \<open>timer\<close> field holds exactly this handle. Hence
  once a round has ended for any reason, or the session has been deleted, no pending
  timer is left that could fire against it: the timer has been cancelled, not ignored.
\<close>

theorem no_stale_timer:
  assumes "reachable st"
  shows "(\<forall>h sid. timers st h = Some sid \<longrightarrow>
            (\<exists>s. sessions st sid = Some s \<and> inProgress s \<and> timer s = Some h))
       \<and> (\<forall>sid. (case sessions st sid of None \<Rightarrow> True | Some s \<Rightarrow> \<not> inProgress s) \<longrightarrow>
            (\<forall>h. timers st h \<noteq> Some sid))"
proof -
  from assms have "timer_inv st" by (rule reachable_timer_inv)
  then show ?thesis by (fastforce simp: timer_inv_def split: option.splits)
qed

theorem no_stale_timer_witness:
  "reachable (run round_events init_state)
   \<and> timers (run round_events init_state) 0 = Some ''r''
   \<and> (\<exists>s. sessions (run round_events init_state) ''r'' = Some s \<and> inProgress s
          \<and> timer s = Some 0)
   \<and> reachable (run (round_events @ [Guess ''c2'' (Some ''paris'')]) init_state)
   \<and> (\<exists>s. sessions (run (round_events @ [Guess ''c2'' (Some ''paris'')]) init_state) ''r'' = Some s
          \<and> \<not> inProgress s)
   \<and> (\<forall>h. timers (run (round_events @ [Guess ''c2'' (Some ''paris'')]) init_state) h \<noteq> Some ''r'')"
proof -
  have r: "reachable (run round_events init_state)"
    by (rule reachable_run) (rule reachable_init)
  have t: "timers (run round_events init_state) 0 = Some ''r''"
    by code_simp
  have r': "reachable (run (round_events @ [Guess ''c2'' (Some ''paris'')]) init_state)"
    by (rule reachable_run) (rule reachable_init)
  have "map_option inProgress
          (sessions (run (round_events @ [Guess ''c2'' (Some ''paris'')]) init_state) ''r'')
        = Some False"
    by code_simp
  then have s': "\<exists>s. sessions (run (round_events @ [Guess ''c2'' (Some ''paris'')]) init_state) ''r'' = Some s
              \<and> \<not> inProgress s"
    by auto
  from no_stale_timer [OF r] t
  have 1: "\<exists>s. sessions (run round_events init_state) ''r'' = Some s \<and> inProgress s
              \<and> timer s = Some 0"
    by blast
  from s' no_stale_timer [OF r']
  have 2: "\<forall>h. timers (run (round_events @ [Guess ''c2'' (Some ''paris'')]) init_state) h \<noteq> Some ''r''"
    by fastforce
  from r t 1 r' s' 2 show ?thesis by blast
qed

subsection \<open>C8: scores\<close>

text \<open>
  C8. The code breaks the claim when a member joins the session it is already in: the
  handler of \<open>join_session\<close> stores a fresh player under the same key. Cy, who has won a
  round of \<open>r\<close> and holds 10 points, sends \<open>join_session\<close> for \<open>r\<close> again and is back at 0.
  By lemma \<open>score_step\<close> this is the only way in which an event lowers the score of a
  player who stays in the session; every other change is the award of 10 points.
\<close>

theorem rejoin_resets_score:
  "map_option (\<lambda>s. map (\<lambda>kp. (fst kp, score (snd kp))) (players s))
     (sessions (run won_events init_state) ''r'')
     = Some [(''c1'', 0), (''c2'', 0), (''c3'', 10)]
   \<and> map_option (\<lambda>s. map (\<lambda>kp. (fst kp, score (snd kp))) (players s))
       (sessions (run rejoin_events init_state) ''r'')
     = Some [(''c1'', 0), (''c2'', 0), (''c3'', 0)]"
  by code_simp

subsection \<open>C9: players of a closed connection\<close>

text \<open>
  C9. The code breaks the claim when a connection is a member of two sessions: the
  socket remembers only the session it entered last, and the disconnect handler leaves
  only that one. Bob, in the lobby of \<open>r\<close>, creates session \<open>q\<close> and then loses his
  connection: \<open>q\<close> is deleted, but \<open>r\<close> still lists him as a player.
\<close>

theorem disconnect_keeps_earlier_membership:
  "map_option (\<lambda>s. map_keys (players s)) (sessions (run second_session_events init_state) ''r'')
     = Some [''c1'', ''c2'', ''c3'']
   \<and> sessions (run second_session_events init_state) ''q'' = None
   \<and> sessionId (sockets (run second_session_events init_state) ''c2'') = None"
  by code_simp

subsection \<open>C10: colliding session ids\<close>

text \<open>
  C10 (as the code has it). \<open>create_session\<close> draws at most one candidate and never
  retries. For an id in effect (the trimmed id of the caller, or the generated candidate
  when the caller gave none) that is not a name inherited from \<open>Object.prototype\<close>: the
  duplicate-id error is reported exactly when that id names a live session, and then
  nothing but the error message is added to the state; otherwise a new idle session is
  registered under that id whose only player, and Game Master, is the creator, and no
  error is sent.
\<close>

theorem create_session_collision:
  assumes "id_in_effect sessionId_in rnd \<notin> set object_prototype_keys"
  shows "(sessions st (id_in_effect sessionId_in rnd) \<noteq> None \<longrightarrow>
      create_session c name_in sessionId_in rnd st =
        emit_socket c
          (Error_message ''Session ID already exists. Try joining it or use another ID.'') st)
   \<and> (sessions st (id_in_effect sessionId_in rnd) = None \<longrightarrow>
        (\<exists>s. sessions (create_session c name_in sessionId_in rnd st) =
                (sessions st)(id_in_effect sessionId_in rnd \<mapsto> s)
            \<and> map_keys (players s) = [c] \<and> gm s = c \<and> \<not> inProgress s)
        \<and> (\<forall>e \<in> set (drop (length (emitted st))
                          (emitted (create_session c name_in sessionId_in rnd st))).
              \<forall>t. e \<noteq> Emit_socket c (Error_message t)))"
proof -
  have id: "(case sessionId_in of Some x \<Rightarrow> if x \<noteq> [] \<and> trim x \<noteq> [] then trim x else rnd
             | None \<Rightarrow> rnd) = id_in_effect sessionId_in rnd"
    by (cases sessionId_in) (auto simp: id_in_effect_def trim_def)
  from assms show ?thesis
    unfolding create_session_def Let_def id
    by (auto simp: map_keys_def)
qed

theorem create_session_collision_witness:
  "id_in_effect (Some '' r '') ''x'' \<notin> set object_prototype_keys
   \<and> sessions (run lobby_events init_state) (id_in_effect (Some '' r '') ''x'') \<noteq> None
   \<and> create_session ''c4'' (Some ''Dee'') (Some '' r '') ''x'' (run lobby_events init_state) =
       emit_socket ''c4''
         (Error_message ''Session ID already exists. Try joining it or use another ID.'')
         (run lobby_events init_state)
   \<and> id_in_effect None ''x'' \<notin> set object_prototype_keys
   \<and> sessions (run lobby_events init_state) (id_in_effect None ''x'') = None
   \<and> (\<exists>s. sessions (create_session ''c4'' (Some ''Dee'') None ''x'' (run lobby_events init_state)) =
            (sessions (run lobby_events init_state))(id_in_effect None ''x'' \<mapsto> s)
          \<and> map_keys (players s) = [''c4''] \<and> gm s = ''c4'' \<and> \<not> inProgress s)"
proof -
  have k: "id_in_effect (Some '' r '') ''x'' \<notin> set object_prototype_keys"
    "id_in_effect None ''x'' \<notin> set object_prototype_keys"
    by code_simp+
  have a: "sessions (run lobby_events init_state) (id_in_effect (Some '' r '') ''x'') \<noteq> None"
    by code_simp
  have b: "sessions (run lobby_events init_state) (id_in_effect None ''x'') = None"
    by code_simp
  from k a b
    create_session_collision [OF k(1), of "run lobby_events init_state" "''c4''" "Some ''Dee''"]
    create_session_collision [OF k(2), of "run lobby_events init_state" "''c4''" "Some ''Dee''"]
  show ?thesis by blast
qed

text \<open>
  The claim as it was stated fails: with session \<open>r\<close> live, a \<open>create_session\<close> without
  an id whose generated candidate is \<open>r\<close> is not retried; it is answered with the
  duplicate-id error although the caller supplied no id.
\<close>

theorem create_session_no_retry_counterexample:
  "sessions (run lobby_events init_state) ''r'' \<noteq> None
   \<and> create_session ''c4'' (Some ''Dee'') None ''r'' (run lobby_events init_state) =
       emit_socket ''c4''
         (Error_message ''Session ID already exists. Try joining it or use another ID.'')
         (run lobby_events init_state)"
proof -
  have a: "sessions (run lobby_events init_state) ''r'' \<noteq> None"
    by code_simp
  then show ?thesis by (simp add: create_session_def Let_def)
qed

end
